theory Spec2Isabelle
  imports Complex_Main "HOL-Library.List_Lexorder"
begin

section \<open>Characters and the case-insensitive order (struct Comp)\<close>

text \<open>
  A \<open>std::string_view\<close> is modelled by its contents, a \<^typ>\<open>string\<close>. The code
  classifies characters with \<open>std::isalpha\<close> and folds case with \<open>std::tolower\<close> in
  the default "C" locale: the alphabetic characters are the ASCII letters, and
  \<open>tolower\<close> maps \<open>A..Z\<close> to \<open>a..z\<close> and is the identity elsewhere. \<open>tolower\<close>
  returns an \<open>int\<close>, here the character code as a natural number.
\<close>

definition isalpha :: "char \<Rightarrow> bool" where
  "isalpha c = (let n = (of_char c :: nat) in (65 \<le> n \<and> n \<le> 90) \<or> (97 \<le> n \<and> n \<le> 122))"

definition tolower :: "char \<Rightarrow> nat" where
  "tolower c = (let n = (of_char c :: nat) in if 65 \<le> n \<and> n \<le> 90 then n + 32 else n)"

text \<open>
  \<open>Comp::operator()\<close> (search.cpp, lines 12 to 30): the loop walks both views while
  both have a character left; the first position where the folded characters differ
  decides, and after the loop the shorter view is the smaller one.
\<close>

fun Comp :: "string \<Rightarrow> string \<Rightarrow> bool" where
  "Comp (l # ls) (r # rs) =
     (if tolower l < tolower r then True
      else if tolower l > tolower r then False
      else Comp ls rs)"
| "Comp [] (r # rs) = True"
| "Comp ls [] = False"

section \<open>std::set with the comparator Comp\<close>

text \<open>
  A \<open>std::set<std::string_view, Comp>\<close> is modelled by the list of its elements in
  iteration order, that is ascending under \<open>Comp\<close>. \<open>insert\<close> leaves the set unchanged
  when it already holds an element equivalent to the new one (neither is smaller than
  the other), so the first spelling inserted stays. \<open>find\<close> returns the stored element
  equivalent to the key.
\<close>

fun set_insert :: "string \<Rightarrow> string list \<Rightarrow> string list" where
  "set_insert x [] = [x]"
| "set_insert x (y # ys) =
     (if Comp x y then x # y # ys
      else if Comp y x then y # set_insert x ys
      else y # ys)"

fun set_find :: "string \<Rightarrow> string list \<Rightarrow> string option" where
  "set_find x [] = None"
| "set_find x (y # ys) =
     (if Comp x y then None
      else if Comp y x then set_find x ys
      else Some y)"

section \<open>Tokenizer\<close>

text \<open>
  \<open>GetWordsFromStringView\<close> (lines 141 to 171). The argument of the model is the part
  of \<open>str\<close> from \<open>start_pos\<close> on. One round of the outer loop skips the characters that
  are not alphabetic (lines 147 to 149), stops when the view is exhausted (151), scans
  the alphabetic run that starts there (155 to 159), appends it, and either stops at
  the end of the view (161 to 164) or goes on behind the character at \<open>finish_pos\<close>
  (166, 167).
\<close>

function GetWordsFromStringView :: "string \<Rightarrow> string list" where
  "GetWordsFromStringView str =
     (case dropWhile (\<lambda>c. \<not> isalpha c) str of
        [] \<Rightarrow> []
      | c # cs \<Rightarrow>
          (case dropWhile isalpha cs of
             [] \<Rightarrow> [c # takeWhile isalpha cs]
           | d # rest \<Rightarrow> (c # takeWhile isalpha cs) # GetWordsFromStringView rest))"
  by pat_completeness auto

lemma length_dropWhile_Cons_less:
  "dropWhile P xs = y # ys \<Longrightarrow> length ys < length xs"
proof -
  assume h: "dropWhile P xs = y # ys"
  have "length (dropWhile P xs) \<le> length xs"
    by (rule length_dropWhile_le)
  with h show ?thesis by simp
qed

termination GetWordsFromStringView
proof (relation "measure length", goal_cases)
  case 1
  show ?case by simp
next
  case (2 str c cs d rest)
  from 2(2) have "length rest < length cs"
    by (rule length_dropWhile_Cons_less)
  moreover from 2(1) have "length cs < length str"
    by (rule length_dropWhile_Cons_less)
  ultimately show ?case by simp
qed

declare GetWordsFromStringView.simps [simp del]

text \<open>
  \<open>GetUniqueWordsFromStringView\<close> (lines 173 to 203) is the same scan, inserting each
  run into a \<open>std::set<std::string_view, Comp>\<close> instead of appending it. The second
  argument of the loop is the set built so far.
\<close>

function GetUniqueWords_loop :: "string \<Rightarrow> string list \<Rightarrow> string list" where
  "GetUniqueWords_loop str result =
     (case dropWhile (\<lambda>c. \<not> isalpha c) str of
        [] \<Rightarrow> result
      | c # cs \<Rightarrow>
          (case dropWhile isalpha cs of
             [] \<Rightarrow> set_insert (c # takeWhile isalpha cs) result
           | d # rest \<Rightarrow>
               GetUniqueWords_loop rest (set_insert (c # takeWhile isalpha cs) result)))"
  by pat_completeness auto

termination GetUniqueWords_loop
proof (relation "measure (\<lambda>(str, result). length str)", goal_cases)
  case 1
  show ?case by simp
next
  case (2 str result c cs d rest)
  from 2(2) have "length rest < length cs"
    by (rule length_dropWhile_Cons_less)
  moreover from 2(1) have "length cs < length str"
    by (rule length_dropWhile_Cons_less)
  ultimately show ?case by simp
qed

declare GetUniqueWords_loop.simps [simp del]

definition GetUniqueWordsFromStringView :: "string \<Rightarrow> string list" where
  "GetUniqueWordsFromStringView str = GetUniqueWords_loop str []"

text \<open>
  \<open>GetLinesFromText\<close> (lines 205 to 228) is a do-while loop: its body runs once before
  the condition \<open>start_pos < text.size()\<close> is looked at. The argument of
  \<open>GetLines_body\<close> is the part of \<open>text\<close> from \<open>start_pos\<close> on, at the start of the body.
  \<open>text.find('\n', start_pos)\<close> is \<open>npos\<close> when that part holds no newline (also when
  it is empty), and \<open>start_pos\<close> plus the length of the part before the first newline
  otherwise. The three branches are those of the body: the newline sits at
  \<open>start_pos\<close> (lines 213 to 216; \<open>continue\<close> in a do-while jumps to the condition),
  there is no newline left (218 to 221, \<open>break\<close>), or a line is cut off before the
  newline and the scan goes on behind it (223, 224). The inner tests for the empty
  remainder are the loop condition of line 225.
\<close>

definition nl :: char where
  "nl = CHR 0x0A"

function GetLines_body :: "string \<Rightarrow> string list" where
  "GetLines_body rest =
     (if rest \<noteq> [] \<and> hd rest = nl then
        (if tl rest = [] then [] else GetLines_body (tl rest))
      else if nl \<notin> set rest then [rest]
      else
        (let after = tl (dropWhile (\<lambda>c. c \<noteq> nl) rest)
         in takeWhile (\<lambda>c. c \<noteq> nl) rest #
            (if after = [] then [] else GetLines_body after)))"
  by pat_completeness auto

lemma length_tl_dropWhile_less:
  "xs \<noteq> [] \<Longrightarrow> length (tl (dropWhile P xs)) < length xs"
proof -
  assume ne: "xs \<noteq> []"
  show ?thesis
  proof (cases "dropWhile P xs")
    case Nil
    show ?thesis unfolding Nil using ne by simp
  next
    case (Cons y ys)
    from Cons have "length ys < length xs"
      by (rule length_dropWhile_Cons_less)
    then show ?thesis unfolding Cons by simp
  qed
qed

termination GetLines_body
proof (relation "measure length", goal_cases)
  case 1
  show ?case by simp
next
  case (2 rest)
  then show ?case by (cases rest) auto
next
  case (3 rest after)
  then have "rest \<noteq> []" by auto
  with 3 show ?case
    using length_tl_dropWhile_less [of rest "\<lambda>c. c \<noteq> nl"] by simp
qed

declare GetLines_body.simps [simp del]

definition GetLinesFromText :: "string \<Rightarrow> string list" where
  "GetLinesFromText text = GetLines_body text"

section \<open>The engine state and its failures\<close>

text \<open>
  The private members of \<open>SearchEngine\<close> (lines 136 to 139). The vocabulary
  \<open>text_words_\<close> is a \<open>std::set\<close> under \<open>Comp\<close>; \<open>words_relevance_in_lines_\<close> is a
  \<open>std::unordered_map<std::string_view, std::vector<double>>\<close> with the default hash
  and equality of \<open>std::string_view\<close>, which compare the contents exactly, so it is a
  partial map on strings. The code never iterates over an unordered map.

  A \<open>double\<close> is modelled by a \<^typ>\<open>real\<close>: rounding is not modelled, and \<open>std::log\<close>
  is \<^const>\<open>ln\<close>.

  Two operations of the code have undefined behaviour on some operands, and the model
  returns an error there: \<open>operator[]\<close> of \<open>std::vector\<close> with an index that is not
  below the size, and the division of line 240 when the divisor is zero.
\<close>

datatype error = OutOfRange | DivisionByZero

record RelevanceAndPos =
  relevance :: real
  pos :: nat

record SearchEngine =
  text_words :: "string list"
  words_relevance_in_lines :: "string \<rightharpoonup> real list"
  lines :: "string list"
  ignore_list :: "nat set"

definition ERROR :: real where
  "ERROR = 1 / 10 ^ 9"

section \<open>Index builder\<close>

text \<open>
  \<open>GetTFOfWordsInLine\<close> (lines 230 to 244). The result is a
  \<open>std::unordered_map<std::string_view, double>\<close> that is only used through
  \<open>operator[]\<close>, which yields \<open>0.0\<close> for a key not yet present: a total function that
  is \<open>0\<close> by default. \<open>count_keywords\<close> is the first loop (233 to 237): a word of the
  line that \<open>keywords.find\<close> finds adds one to the entry of the stored keyword.
  \<open>divide_keywords\<close> is the second loop (239 to 241).
\<close>

fun count_keywords :: "string list \<Rightarrow> string list \<Rightarrow> (string \<Rightarrow> real) \<Rightarrow> (string \<Rightarrow> real)" where
  "count_keywords [] keywords result = result"
| "count_keywords (word # ws) keywords result =
     count_keywords ws keywords
       (case set_find word keywords of
          None \<Rightarrow> result
        | Some k \<Rightarrow> result(k := result k + 1))"

fun divide_keywords :: "string list \<Rightarrow> real \<Rightarrow> (string \<Rightarrow> real) \<Rightarrow> (string \<Rightarrow> real)" where
  "divide_keywords [] n result = result"
| "divide_keywords (word # ks) n result =
     divide_keywords ks n (result(word := result word / n))"

definition GetTFOfWordsInLine :: "string list \<Rightarrow> string list \<Rightarrow> error + (string \<Rightarrow> real)" where
  "GetTFOfWordsInLine words_in_line keywords =
     (if keywords \<noteq> [] \<and> length words_in_line = 0 then Inl DivisionByZero
      else Inr (divide_keywords keywords (real (length words_in_line))
                  (count_keywords words_in_line keywords (\<lambda>w. 0))))"

text \<open>
  The first loop of \<open>BuildIndex\<close> (lines 46 to 52): the words of every line, and the
  positions of the lines without a word. The counter is the loop variable \<open>i\<close>.
\<close>

fun collect_words :: "string list \<Rightarrow> nat \<Rightarrow> string list list \<times> nat set \<Rightarrow> string list list \<times> nat set" where
  "collect_words [] i (words_in_lines, ignore) = (words_in_lines, ignore)"
| "collect_words (l # ls) i (words_in_lines, ignore) =
     (let ws = GetWordsFromStringView l
      in collect_words ls (Suc i)
           (words_in_lines @ [ws], if ws = [] then insert i ignore else ignore))"

text \<open>
  The second loop (lines 57 to 70). The state is the pair of the local maps
  \<open>word_tf_in_line\<close> (a vector per word, empty by default) and \<open>word_idf\<close> (a
  \<open>double\<close> per word, \<open>0.0\<close> by default), which at this point counts lines.
  \<open>record_tf\<close> is the inner loop over the vocabulary (64 to 69).
\<close>

type_synonym tf_state = "(string \<Rightarrow> real list) \<times> (string \<Rightarrow> real)"

fun record_tf :: "string list \<Rightarrow> (string \<Rightarrow> real) \<Rightarrow> tf_state \<Rightarrow> tf_state" where
  "record_tf [] temp st = st"
| "record_tf (word # ws) temp (word_tf_in_line, word_idf) =
     record_tf ws temp
       (word_tf_in_line(word := word_tf_in_line word @ [temp word]),
        if temp word \<noteq> 0 then word_idf(word := word_idf word + 1) else word_idf)"

fun tf_loop :: "string list list \<Rightarrow> nat \<Rightarrow> nat set \<Rightarrow> string list \<Rightarrow> tf_state \<Rightarrow> error + tf_state" where
  "tf_loop [] i ignore keywords st = Inr st"
| "tf_loop (ws # rest) i ignore keywords st =
     (if i \<in> ignore then tf_loop rest (Suc i) ignore keywords st
      else case GetTFOfWordsInLine ws keywords of
             Inl e \<Rightarrow> Inl e
           | Inr temp \<Rightarrow> tf_loop rest (Suc i) ignore keywords (record_tf keywords temp st))"

text \<open>The third loop (lines 72 to 76) turns the counts into inverse document frequencies.\<close>

fun idf_loop :: "string list \<Rightarrow> nat \<Rightarrow> (string \<Rightarrow> real) \<Rightarrow> (string \<Rightarrow> real)" where
  "idf_loop [] n word_idf = word_idf"
| "idf_loop (word # ws) n word_idf =
     idf_loop ws n
       (if word_idf word \<noteq> 0 then word_idf(word := ln (real n / word_idf word))
        else word_idf)"

text \<open>
  The fourth loop (lines 78 to 86). \<open>relevance_words\<close> is the inner loop: it reads
  \<open>word_tf_in_line[word][i]\<close> with the line position \<open>i\<close> and appends the product to
  the vector of the word, which \<open>operator[]\<close> of the map creates empty.
\<close>

fun relevance_words ::
  "string list \<Rightarrow> nat \<Rightarrow> (string \<Rightarrow> real list) \<Rightarrow> (string \<Rightarrow> real) \<Rightarrow>
   (string \<rightharpoonup> real list) \<Rightarrow> error + (string \<rightharpoonup> real list)" where
  "relevance_words [] i word_tf_in_line word_idf rel = Inr rel"
| "relevance_words (word # ws) i word_tf_in_line word_idf rel =
     (if i < length (word_tf_in_line word) then
        relevance_words ws i word_tf_in_line word_idf
          (rel(word \<mapsto> (case rel word of None \<Rightarrow> [] | Some v \<Rightarrow> v)
                          @ [word_tf_in_line word ! i * word_idf word]))
      else Inl OutOfRange)"

fun relevance_loop ::
  "nat list \<Rightarrow> nat set \<Rightarrow> string list \<Rightarrow> (string \<Rightarrow> real list) \<Rightarrow> (string \<Rightarrow> real) \<Rightarrow>
   (string \<rightharpoonup> real list) \<Rightarrow> error + (string \<rightharpoonup> real list)" where
  "relevance_loop [] ignore keywords word_tf_in_line word_idf rel = Inr rel"
| "relevance_loop (i # rest) ignore keywords word_tf_in_line word_idf rel =
     (if i \<in> ignore then relevance_loop rest ignore keywords word_tf_in_line word_idf rel
      else case relevance_words keywords i word_tf_in_line word_idf rel of
             Inl e \<Rightarrow> Inl e
           | Inr rel' \<Rightarrow> relevance_loop rest ignore keywords word_tf_in_line word_idf rel')"

text \<open>
  \<open>BuildIndex\<close> (lines 39 to 87) overwrites all four members, so the new state is a
  function of the text alone. The stages are named so that the values of the local
  variables can be spoken about: \<open>index_words\<close> is \<open>words_in_lines\<close> with the ignore
  list after the first loop, \<open>index_tf\<close> the two local maps after the second loop,
  \<open>index_idf\<close> the map \<open>word_idf\<close> after the third.
\<close>

definition index_words :: "string \<Rightarrow> string list list \<times> nat set" where
  "index_words text = collect_words (GetLinesFromText text) 0 ([], {})"

definition index_tf :: "string \<Rightarrow> error + tf_state" where
  "index_tf text =
     tf_loop (fst (index_words text)) 0 (snd (index_words text))
       (GetUniqueWordsFromStringView text) (\<lambda>w. [], \<lambda>w. 0)"

definition index_idf :: "string \<Rightarrow> error + (string \<Rightarrow> real)" where
  "index_idf text =
     (case index_tf text of
        Inl e \<Rightarrow> Inl e
      | Inr (word_tf_in_line, word_idf) \<Rightarrow>
          Inr (idf_loop (GetUniqueWordsFromStringView text)
                 (length (GetLinesFromText text)) word_idf))"

definition BuildIndex :: "string \<Rightarrow> error + SearchEngine" where
  "BuildIndex text =
     (case index_tf text of
        Inl e \<Rightarrow> Inl e
      | Inr (word_tf_in_line, word_df) \<Rightarrow>
          (let word_idf = idf_loop (GetUniqueWordsFromStringView text)
                            (length (GetLinesFromText text)) word_df
           in case relevance_loop [0..<length (GetLinesFromText text)]
                     (snd (index_words text)) (GetUniqueWordsFromStringView text)
                     word_tf_in_line word_idf Map.empty of
                Inl e \<Rightarrow> Inl e
              | Inr rel \<Rightarrow>
                  Inr \<lparr>text_words = GetUniqueWordsFromStringView text,
                       words_relevance_in_lines = rel,
                       lines = GetLinesFromText text,
                       ignore_list = snd (index_words text)\<rparr>))"

section \<open>Query engine\<close>

text \<open>
  The comparator of lines 116 to 122, and \<open>std::sort\<close>. The library function is not
  part of the repository. The model is the insertion sort that the GNU C++ library
  runs on a range of at most 16 elements (\<open>__insertion_sort\<close>): element by element,
  from the second on, a value that the comparator puts before the first element of
  the range moves to the front, and any other value moves towards the front past every
  element that it is smaller than (\<open>__unguarded_linear_insert\<close>, whose list argument
  is the sorted part with its last element first; its first equation is not reached
  from \<open>insertion_sort\<close>, which has compared the value with the first element
  before). On a longer range the library
  partitions the range before this pass. For a comparator that orders the elements of
  the range strictly and totally there is exactly one sorted arrangement, which every
  implementation of \<open>std::sort\<close> returns; for any other comparator the standard
  leaves the result open. The call sorts through reverse iterators: the reversed
  range becomes ascending.
\<close>

definition less_relevance :: "RelevanceAndPos \<Rightarrow> RelevanceAndPos \<Rightarrow> bool" where
  "less_relevance lhs rhs =
     (if \<bar>relevance lhs - relevance rhs\<bar> < ERROR then pos rhs < pos lhs
      else relevance lhs < relevance rhs)"

fun unguarded_linear_insert :: "('a \<Rightarrow> 'a \<Rightarrow> bool) \<Rightarrow> 'a \<Rightarrow> 'a list \<Rightarrow> 'a list" where
  "unguarded_linear_insert cmp val [] = [val]"
| "unguarded_linear_insert cmp val (prev # before) =
     (if cmp val prev then prev # unguarded_linear_insert cmp val before
      else val # prev # before)"

fun insertion_sort :: "('a \<Rightarrow> 'a \<Rightarrow> bool) \<Rightarrow> 'a list \<Rightarrow> 'a list \<Rightarrow> 'a list" where
  "insertion_sort cmp front [] = front"
| "insertion_sort cmp front (val # rest) =
     insertion_sort cmp
       (case front of
          [] \<Rightarrow> [val]
        | first # others \<Rightarrow>
            if cmp val first then val # front
            else rev (unguarded_linear_insert cmp val (rev front)))
       rest"

definition std_sort :: "('a \<Rightarrow> 'a \<Rightarrow> bool) \<Rightarrow> 'a list \<Rightarrow> 'a list" where
  "std_sort cmp xs = insertion_sort cmp [] xs"

text \<open>
  The scoring loop of \<open>Search\<close> (lines 99 to 113). \<open>line_relevance\<close> is the inner loop
  over the query words (106 to 110): a word that \<open>find\<close> finds in the relevance table
  adds \<open>it->second[i]\<close>.
\<close>

fun line_relevance :: "string list \<Rightarrow> (string \<rightharpoonup> real list) \<Rightarrow> nat \<Rightarrow> real \<Rightarrow> error + real" where
  "line_relevance [] rel i r = Inr r"
| "line_relevance (word # ws) rel i r =
     (case rel word of
        None \<Rightarrow> line_relevance ws rel i r
      | Some v \<Rightarrow>
          if i < length v then line_relevance ws rel i (r + v ! i) else Inl OutOfRange)"

fun score_lines ::
  "nat list \<Rightarrow> nat set \<Rightarrow> string list \<Rightarrow> (string \<rightharpoonup> real list) \<Rightarrow>
   RelevanceAndPos list \<Rightarrow> error + RelevanceAndPos list" where
  "score_lines [] ignore query_words rel lines_relevance = Inr lines_relevance"
| "score_lines (i # rest) ignore query_words rel lines_relevance =
     (if i \<in> ignore then score_lines rest ignore query_words rel lines_relevance
      else case line_relevance query_words rel i 0 of
             Inl e \<Rightarrow> Inl e
           | Inr r \<Rightarrow>
               score_lines rest ignore query_words rel
                 (lines_relevance @ [\<lparr>relevance = r, pos = i\<rparr>]))"

text \<open>The last loop (lines 124 to 130), with its counter \<open>i\<close>.\<close>

fun collect_results ::
  "RelevanceAndPos list \<Rightarrow> nat \<Rightarrow> nat \<Rightarrow> string list \<Rightarrow> string list \<Rightarrow> error + string list" where
  "collect_results [] i results_count ls result = Inr result"
| "collect_results (r # rs) i results_count ls result =
     (if i \<ge> results_count \<or> relevance r = 0 then Inr result
      else if pos r < length ls then
        collect_results rs (Suc i) results_count ls (result @ [ls ! pos r])
      else Inl OutOfRange)"

definition Search :: "SearchEngine \<Rightarrow> string \<Rightarrow> nat \<Rightarrow> error + string list" where
  "Search eng query results_count =
     (if results_count = 0 \<or> lines eng = [] then Inr []
      else
        (let query_words = GetUniqueWordsFromStringView query
         in case score_lines [0..<length (lines eng)] (ignore_list eng) query_words
                   (words_relevance_in_lines eng) [] of
              Inl e \<Rightarrow> Inl e
            | Inr lines_relevance \<Rightarrow>
                collect_results (rev (std_sort less_relevance (rev lines_relevance)))
                  0 results_count (lines eng) []))"

section \<open>Notions of the statements\<close>

text \<open>The case-folded form of a word: the sequence that \<open>Comp\<close> compares.\<close>

definition key :: "string \<Rightarrow> nat list" where
  "key w = map tolower w"

text \<open>The term frequencies of one line, as \<open>GetTFOfWordsInLine\<close> computes them.\<close>

definition tf_of :: "string list \<Rightarrow> string list \<Rightarrow> string \<Rightarrow> real" where
  "tf_of ws keywords =
     divide_keywords keywords (real (length ws)) (count_keywords ws keywords (\<lambda>w. 0))"

text \<open>
  The term frequency of a word in the line at position \<open>i\<close> is the entry of the map
  that \<open>GetTFOfWordsInLine\<close> returns for that line (\<open>temp[word]\<close> in line 65). The
  document frequency of a word is the number of the lines outside the ignore list
  whose term frequency for the word is not zero.
\<close>

definition line_tf :: "string \<Rightarrow> nat \<Rightarrow> string \<Rightarrow> real" where
  "line_tf text i w =
     (case GetTFOfWordsInLine (GetWordsFromStringView (GetLinesFromText text ! i))
             (GetUniqueWordsFromStringView text) of
        Inl e \<Rightarrow> 0
      | Inr temp \<Rightarrow> temp w)"

definition document_frequency :: "string \<Rightarrow> string \<Rightarrow> nat" where
  "document_frequency text w =
     length (filter (\<lambda>i. i \<notin> snd (index_words text) \<and> line_tf text i w \<noteq> 0)
               [0..<length (GetLinesFromText text)])"

text \<open>The word lists of the lines outside the ignore list, in order.\<close>

definition scored_words :: "string \<Rightarrow> string list list" where
  "scored_words text =
     filter (\<lambda>ws. ws \<noteq> []) (map GetWordsFromStringView (GetLinesFromText text))"

text \<open>The table invariant: entries are not negative, and zero for a word of weight zero.\<close>

definition table_ok :: "(string \<Rightarrow> real) \<Rightarrow> (string \<rightharpoonup> real list) \<Rightarrow> bool" where
  "table_ok idf rel \<longleftrightarrow>
     (\<forall>w v. rel w = Some v \<longrightarrow> (\<forall>x \<in> set v. 0 \<le> x \<and> (idf w = 0 \<longrightarrow> x = 0)))"

text \<open>The vector \<open>lines_relevance\<close> of \<open>Search\<close> after the scoring loop, before it is sorted.\<close>

definition Search_scores :: "SearchEngine \<Rightarrow> string \<Rightarrow> error + RelevanceAndPos list" where
  "Search_scores eng query =
     score_lines [0..<length (lines eng)] (ignore_list eng)
       (GetUniqueWordsFromStringView query) (words_relevance_in_lines eng) []"

text \<open>
  \<open>Search\<close> returns line contents only. \<open>Search_ranking\<close> is the same computation,
  returning the entries of \<open>lines_relevance\<close> that the last loop (lines 124 to 130)
  turns into result lines, with their scores and positions: the loop takes entries
  from the front of the sorted vector until it has \<open>results_count\<close> of them or meets
  a score that is zero.
\<close>

definition Search_ranking :: "SearchEngine \<Rightarrow> string \<Rightarrow> nat \<Rightarrow> error + RelevanceAndPos list" where
  "Search_ranking eng query results_count =
     (if results_count = 0 \<or> lines eng = [] then Inr []
      else
        (case Search_scores eng query of
           Inl e \<Rightarrow> Inl e
         | Inr lines_relevance \<Rightarrow>
             Inr (takeWhile (\<lambda>r. relevance r \<noteq> 0)
                    (take results_count (rev (std_sort less_relevance (rev lines_relevance)))))))"

text \<open>
  The order that the specification asks of a ranking: of two entries, the earlier
  one has the smaller position when the scores differ by less than the tolerance,
  and the strictly greater score otherwise.
\<close>

definition tie_break_ordered :: "RelevanceAndPos list \<Rightarrow> bool" where
  "tie_break_ordered rs =
     sorted_wrt (\<lambda>a b. if \<bar>relevance a - relevance b\<bar> < ERROR then pos a < pos b
                        else relevance b < relevance a) rs"

text \<open>
  The comparison of lines 116 to 122 is transitive on the entries. It decides every
  pair of entries at different positions one way or the other, so this is what
  \<open>std::sort\<close> asks of its comparator.
\<close>

definition comparison_transitive :: "RelevanceAndPos list \<Rightarrow> bool" where
  "comparison_transitive rs =
     list_all (\<lambda>a. list_all (\<lambda>b. list_all (\<lambda>c.
        less_relevance a b \<and> less_relevance b c \<longrightarrow> less_relevance a c) rs) rs) rs"

text \<open>Building the index of a text, then ranking a query on it, or only scoring its lines.\<close>

definition ranking_of :: "string \<Rightarrow> string \<Rightarrow> nat \<Rightarrow> error + RelevanceAndPos list" where
  "ranking_of text query results_count =
     (case BuildIndex text of
        Inl e \<Rightarrow> Inl e
      | Inr eng \<Rightarrow> Search_ranking eng query results_count)"

definition scores_of :: "string \<Rightarrow> string \<Rightarrow> error + RelevanceAndPos list" where
  "scores_of text query =
     (case BuildIndex text of
        Inl e \<Rightarrow> Inl e
      | Inr eng \<Rightarrow> Search_scores eng query)"

text \<open>Building the index of a text and running a query on it.\<close>

definition search_text :: "string \<Rightarrow> string \<Rightarrow> nat \<Rightarrow> error + string list" where
  "search_text text query results_count =
     (case BuildIndex text of
        Inl e \<Rightarrow> Inl e
      | Inr eng \<Rightarrow> Search eng query results_count)"

section \<open>Example texts\<close>

text \<open>The ranking example of the specification.\<close>

definition ranking_text :: string where
  "ranking_text = ''cat sat\<newline>dog ran\<newline>cat cat cat''"

text \<open>A text in lower case, to be queried in another case.\<close>

definition fruit_text :: string where
  "fruit_text = ''apple pie\<newline>banana bread''"

text \<open>Two lines with the same score for the query \<open>cat\<close>.\<close>

definition tie_text :: string where
  "tie_text = ''cat a\<newline>cat b\<newline>dog''"

text \<open>
  A text of four lines: the word \<open>w\<close> followed by 20001, 20000 and 19999 words \<open>x\<close>,
  and a last line \<open>1\<close> without a word. For the query \<open>w\<close> the scores of the first
  three lines are \<open>ln (4/3) / 20002\<close>, \<open>ln (4/3) / 20001\<close> and \<open>ln (4/3) / 20000\<close>:
  neighbours differ by less than the tolerance, the first and the third by more.
\<close>

definition chain_line :: "nat \<Rightarrow> string" where
  "chain_line n = ''w'' @ concat (replicate n '' x'')"

definition chain_text :: string where
  "chain_text =
     chain_line 20001 @ nl # chain_line 20000 @ nl # chain_line 19999 @ nl # ''1''"

text \<open>The scored lines of the chain for the query \<open>w\<close>, and the ranking of the three.\<close>

definition chain_scores :: "RelevanceAndPos list" where
  "chain_scores =
     [\<lparr>relevance = ln (4 / 3) / 20002, pos = 0\<rparr>,
      \<lparr>relevance = ln (4 / 3) / 20001, pos = 1\<rparr>,
      \<lparr>relevance = ln (4 / 3) / 20000, pos = 2\<rparr>]"

definition chain_ranking :: "RelevanceAndPos list" where
  "chain_ranking =
     [\<lparr>relevance = ln (4 / 3) / 20001, pos = 1\<rparr>,
      \<lparr>relevance = ln (4 / 3) / 20000, pos = 2\<rparr>,
      \<lparr>relevance = ln (4 / 3) / 20002, pos = 0\<rparr>]"

section \<open>Line splitting\<close>

lemma takeWhile_ne_Nil: "xs \<noteq> [] \<Longrightarrow> P (hd xs) \<Longrightarrow> takeWhile P xs \<noteq> []"
  by (cases xs) auto

text \<open>Once the scan has a character to look at, every line it cuts is non-empty.\<close>

lemma GetLines_body_nonempty:
  "rest \<noteq> [] \<Longrightarrow> l \<in> set (GetLines_body rest) \<Longrightarrow> l \<noteq> []"
proof (induction rest rule: GetLines_body.induct)
  case (1 rest)
  note mem = \<open>l \<in> set (GetLines_body rest)\<close>
  show ?case
  proof (cases "hd rest = nl")
    case True
    with 1 show ?thesis
      by (subst (asm) (2) GetLines_body.simps) (auto split: if_splits)
  next
    case False
    show ?thesis
    proof (cases "nl \<in> set rest")
      case no: False
      with False mem 1(3) show ?thesis
        by (subst (asm) GetLines_body.simps) (auto split: if_splits)
    next
      case yes: True
      let ?after = "tl (dropWhile (\<lambda>c. c \<noteq> nl) rest)"
      from mem False yes 1(3)
      have "l = takeWhile (\<lambda>c. c \<noteq> nl) rest \<or> (?after \<noteq> [] \<and> l \<in> set (GetLines_body ?after))"
        by (subst (asm) GetLines_body.simps) (auto simp: Let_def split: if_splits)
      then show ?thesis
      proof
        assume "l = takeWhile (\<lambda>c. c \<noteq> nl) rest"
        with False 1(3) show ?thesis by (simp add: takeWhile_ne_Nil)
      next
        assume "?after \<noteq> [] \<and> l \<in> set (GetLines_body ?after)"
        with 1(2) [of ?after] False yes show ?thesis by auto
      qed
    qed
  qed
qed

lemma GetLinesFromText_nonempty_text:
  "text \<noteq> [] \<Longrightarrow> l \<in> set (GetLinesFromText text) \<Longrightarrow> l \<noteq> []"
  unfolding GetLinesFromText_def by (rule GetLines_body_nonempty)

text \<open>
  Claim C3 (no line of the result of \<open>GetLinesFromText\<close> is empty, and the empty text
  gives no line). On the empty text the body of the do-while loop runs once before the
  condition is tested: \<open>find\<close> returns \<open>npos\<close>, which differs from \<open>start_pos = 0\<close>, and
  line 219 appends \<open>text.substr(0)\<close>, the empty view. The result is the one-element
  sequence holding the empty line.
\<close>

theorem GetLinesFromText_empty_text: "GetLinesFromText [] = [[]]"
  by (simp add: GetLinesFromText_def GetLines_body.simps)

section \<open>Ignored lines and the score vectors\<close>

lemma lines_digit_then_word: "GetLinesFromText ''1\<newline>a'' = [''1'', ''a'']"
  by code_simp

lemma vocabulary_digit_then_word: "GetUniqueWordsFromStringView ''1\<newline>a'' = [''a'']"
  by code_simp

lemma words_digit_then_word: "index_words ''1\<newline>a'' = ([[], [''a'']], {0})"
  by code_simp

lemma tf_digit_then_word:
  "index_tf ''1\<newline>a'' = Inr ((\<lambda>w. [])(''a'' := [1]), (\<lambda>w. 0)(''a'' := 1))"
  by (simp add: index_tf_def vocabulary_digit_then_word words_digit_then_word
      GetTFOfWordsInLine_def)

text \<open>
  Claim C2 (every word's score vector has one entry per retained line, so the reads at
  the line position \<open>i\<close> are in bounds). The text \<open>1\<newline>a\<close> has the retained lines
  \<open>1\<close> (ignored) and \<open>a\<close>. The second loop appends a term frequency only for the line
  \<open>a\<close>, so \<open>word_tf_in_line["a"]\<close> has one element; the fourth loop reads it at the
  line position \<open>1\<close> (line 84), outside the vector.
\<close>

theorem BuildIndex_ignored_line_first: "BuildIndex ''1\<newline>a'' = Inl OutOfRange"
  by (simp add: BuildIndex_def tf_digit_then_word lines_digit_then_word
      vocabulary_digit_then_word words_digit_then_word)

text \<open>
  With the ignored line behind the scored one the reads stay in bounds, and the score
  vector of the word has one entry for the two retained lines.
\<close>

lemma lines_word_then_digit: "GetLinesFromText ''a\<newline>1'' = [''a'', ''1'']"
  by code_simp

lemma vocabulary_word_then_digit: "GetUniqueWordsFromStringView ''a\<newline>1'' = [''a'']"
  by code_simp

lemma words_word_then_digit: "index_words ''a\<newline>1'' = ([[''a''], []], {1})"
  by code_simp

lemma BuildIndex_ignored_line_last:
  "\<exists>eng. BuildIndex ''a\<newline>1'' = Inr eng \<and> lines eng = [''a'', ''1''] \<and>
     words_relevance_in_lines eng ''a'' = Some [ln 2]"
  by (simp add: BuildIndex_def index_tf_def lines_word_then_digit vocabulary_word_then_digit
      words_word_then_digit GetTFOfWordsInLine_def upt_rec)

text \<open>Two more texts whose first line has no word.\<close>

lemma lines_sum_then_word: "GetLinesFromText ''2 + 2\<newline>four'' = [''2 + 2'', ''four'']"
  by code_simp

lemma vocabulary_sum_then_word: "GetUniqueWordsFromStringView ''2 + 2\<newline>four'' = [''four'']"
  by code_simp

lemma words_sum_then_word: "index_words ''2 + 2\<newline>four'' = ([[], [''four'']], {0})"
  by code_simp

lemma lines_digits_then_cat: "GetLinesFromText ''12-34!!\<newline>cat'' = [''12-34!!'', ''cat'']"
  by code_simp

lemma vocabulary_digits_then_cat: "GetUniqueWordsFromStringView ''12-34!!\<newline>cat'' = [''cat'']"
  by code_simp

lemma words_digits_then_cat: "index_words ''12-34!!\<newline>cat'' = ([[], [''cat'']], {0})"
  by code_simp

lemma tf_digits_then_cat:
  "index_tf ''12-34!!\<newline>cat'' = Inr ((\<lambda>w. [])(''cat'' := [1]), (\<lambda>w. 0)(''cat'' := 1))"
  by (simp add: index_tf_def vocabulary_digits_then_cat words_digits_then_cat
      GetTFOfWordsInLine_def)

section \<open>The case-insensitive order and the ordered set\<close>

text \<open>
  \<open>Comp\<close> is the lexicographic order on the case-folded words, so two words are
  equivalent under it exactly when their folded forms are equal.
\<close>

lemma Comp_iff_key: "Comp a b \<longleftrightarrow> key a < key b"
  by (induction a b rule: Comp.induct) (auto simp: key_def)

lemma not_Comp_both: "\<not> Comp x y \<Longrightarrow> \<not> Comp y x \<Longrightarrow> key x = key y"
  by (simp add: Comp_iff_key)

lemma set_insert_keys: "key ` set (set_insert x xs) = insert (key x) (key ` set xs)"
  by (induction xs) (auto simp: Comp_iff_key)

lemma set_insert_subset: "set (set_insert x xs) \<subseteq> insert x (set xs)"
  by (induction xs) auto

lemma set_insert_sorted:
  "sorted_wrt (<) (map key xs) \<Longrightarrow> sorted_wrt (<) (map key (set_insert x xs))"
proof (induction xs)
  case Nil
  show ?case by simp
next
  case (Cons y ys)
  have "\<forall>k \<in> key ` set (set_insert x ys). key y < k" if "key y < key x"
    using that Cons.prems by (auto simp: set_insert_keys)
  with Cons show ?case
    by (auto simp: Comp_iff_key)
qed

lemma set_find_Some: "set_find x xs = Some y \<Longrightarrow> y \<in> set xs \<and> key y = key x"
  by (induction xs) (auto simp: Comp_iff_key split: if_splits)

lemma set_find_present:
  "sorted_wrt (<) (map key xs) \<Longrightarrow> key x \<in> key ` set xs \<Longrightarrow> \<exists>y. set_find x xs = Some y"
proof (induction xs)
  case Nil
  then show ?case by simp
next
  case (Cons y ys)
  then show ?case
    by (fastforce simp: Comp_iff_key)
qed

lemma sorted_keys_distinct: "sorted_wrt (<) (map key xs) \<Longrightarrow> distinct xs"
  by (induction xs) auto

section \<open>The two scans agree\<close>

lemma GetWords_none:
  assumes "dropWhile (\<lambda>c. \<not> isalpha c) str = []"
  shows "GetWordsFromStringView str = []"
  by (subst GetWordsFromStringView.simps) (simp only: assms list.case)

lemma GetWords_last:
  assumes "dropWhile (\<lambda>c. \<not> isalpha c) str = c # cs" and "dropWhile isalpha cs = []"
  shows "GetWordsFromStringView str = [c # takeWhile isalpha cs]"
  by (subst GetWordsFromStringView.simps) (simp only: assms list.case)

lemma GetWords_more:
  assumes "dropWhile (\<lambda>c. \<not> isalpha c) str = c # cs" and "dropWhile isalpha cs = d # rest"
  shows "GetWordsFromStringView str = (c # takeWhile isalpha cs) # GetWordsFromStringView rest"
  by (subst GetWordsFromStringView.simps) (simp only: assms list.case)

lemma GetUniqueWords_loop_fold:
  "GetUniqueWords_loop str result = fold set_insert (GetWordsFromStringView str) result"
proof (induction str result rule: GetUniqueWords_loop.induct)
  case (1 str result)
  show ?case
  proof (cases "dropWhile (\<lambda>c. \<not> isalpha c) str")
    case Nil
    have "GetUniqueWords_loop str result = result"
      by (subst GetUniqueWords_loop.simps) (simp only: Nil list.case)
    then show ?thesis
      by (simp add: GetWords_none [OF Nil])
  next
    case skip: (Cons c cs)
    show ?thesis
    proof (cases "dropWhile isalpha cs")
      case Nil
      have "GetUniqueWords_loop str result = set_insert (c # takeWhile isalpha cs) result"
        by (subst GetUniqueWords_loop.simps) (simp only: skip Nil list.case)
      then show ?thesis
        by (simp add: GetWords_last [OF skip Nil])
    next
      case (Cons d rest)
      have "GetUniqueWords_loop str result =
            GetUniqueWords_loop rest (set_insert (c # takeWhile isalpha cs) result)"
        by (subst GetUniqueWords_loop.simps) (simp only: skip Cons list.case)
      with 1 [OF skip Cons] show ?thesis
        by (simp add: GetWords_more [OF skip Cons])
    qed
  qed
qed

lemma GetUniqueWords_fold:
  "GetUniqueWordsFromStringView str = fold set_insert (GetWordsFromStringView str) []"
  by (simp add: GetUniqueWordsFromStringView_def GetUniqueWords_loop_fold)

lemma fold_set_insert_sorted:
  "sorted_wrt (<) (map key acc) \<Longrightarrow> sorted_wrt (<) (map key (fold set_insert ws acc))"
  by (induction ws arbitrary: acc) (auto simp: set_insert_sorted)

lemma fold_set_insert_keys:
  "key ` set (fold set_insert ws acc) = key ` set ws \<union> key ` set acc"
  by (induction ws arbitrary: acc) (auto simp: set_insert_keys)

lemma fold_set_insert_subset:
  "set (fold set_insert ws acc) \<subseteq> set ws \<union> set acc"
proof (induction ws arbitrary: acc)
  case Nil
  show ?case by simp
next
  case (Cons w ws)
  from Cons [of "set_insert w acc"] set_insert_subset [of w acc]
  show ?case by auto
qed

section \<open>The words of the text are the words of its lines\<close>

lemma GetWords_Nil [simp]: "GetWordsFromStringView [] = []"
  by (rule GetWords_none) simp

lemma GetWords_dropWhile:
  "GetWordsFromStringView (dropWhile (\<lambda>c. \<not> isalpha c) str) = GetWordsFromStringView str"
  by (subst GetWordsFromStringView.simps, subst (2) GetWordsFromStringView.simps)
     (simp only: dropWhile_idem)

lemma GetWords_append_separator:
  "\<not> isalpha s \<Longrightarrow>
   GetWordsFromStringView (a @ s # b) = GetWordsFromStringView a @ GetWordsFromStringView b"
proof (induction a rule: GetWordsFromStringView.induct)
  case (1 str)
  let ?skip = "dropWhile (\<lambda>c. \<not> isalpha c)"
  show ?case
  proof (cases "?skip str")
    case Nil
    then have all: "\<forall>c \<in> set str. \<not> isalpha c"
      by (simp add: dropWhile_eq_Nil_conv)
    with 1(2) have "?skip (str @ s # b) = ?skip b"
      by simp
    then have "GetWordsFromStringView (str @ s # b) = GetWordsFromStringView b"
      using GetWords_dropWhile [of "str @ s # b"] GetWords_dropWhile [of b] by simp
    with GetWords_none [OF Nil] show ?thesis by simp
  next
    case skip: (Cons c cs)
    then obtain x where "x \<in> set str" and "\<not> \<not> isalpha x"
      using dropWhile_eq_Nil_conv [of "\<lambda>c. \<not> isalpha c" str] by auto
    then have "?skip (str @ s # b) = ?skip str @ s # b"
      by (rule dropWhile_append1)
    with skip have skip': "?skip (str @ s # b) = c # (cs @ s # b)"
      by simp
    show ?thesis
    proof (cases "dropWhile isalpha cs")
      case Nil
      then have all: "\<forall>c \<in> set cs. isalpha c"
        by (simp add: dropWhile_eq_Nil_conv)
      with 1(2) have run: "dropWhile isalpha (cs @ s # b) = s # b"
        by simp
      from all have tw2: "takeWhile isalpha cs = cs"
        by (simp add: takeWhile_eq_all_conv)
      from all 1(2) have tw1: "takeWhile isalpha (cs @ s # b) = cs"
        by (simp add: takeWhile_append2)
      have tw: "takeWhile isalpha (cs @ s # b) = takeWhile isalpha cs"
        by (simp only: tw1 tw2)
      from GetWords_more [OF skip' run] GetWords_last [OF skip Nil] tw
      show ?thesis by simp
    next
      case (Cons d rest)
      then obtain x where x: "x \<in> set cs" "\<not> isalpha x"
        using dropWhile_eq_Nil_conv [of isalpha cs] by auto
      then have "dropWhile isalpha (cs @ s # b) = dropWhile isalpha cs @ s # b"
        by (rule dropWhile_append1)
      with Cons have run: "dropWhile isalpha (cs @ s # b) = d # (rest @ s # b)"
        by simp
      from x have tw: "takeWhile isalpha (cs @ s # b) = takeWhile isalpha cs"
        by (rule takeWhile_append1)
      from GetWords_more [OF skip' run] GetWords_more [OF skip Cons] tw
        1(1) [OF skip Cons 1(2)]
      show ?thesis by simp
    qed
  qed
qed

lemma not_isalpha_nl: "\<not> isalpha nl"
  by (simp add: isalpha_def nl_def)

lemma GetWords_skip_newline:
  "GetWordsFromStringView (nl # b) = GetWordsFromStringView b"
  using GetWords_append_separator [OF not_isalpha_nl, of "[]" b] by simp

lemma split_at_newline:
  "nl \<in> set rest \<Longrightarrow>
   rest = takeWhile (\<lambda>c. c \<noteq> nl) rest @ nl # tl (dropWhile (\<lambda>c. c \<noteq> nl) rest)"
proof -
  assume "nl \<in> set rest"
  then have "dropWhile (\<lambda>c. c \<noteq> nl) rest \<noteq> []"
    by (auto simp: dropWhile_eq_Nil_conv)
  moreover from this have "hd (dropWhile (\<lambda>c. c \<noteq> nl) rest) = nl"
    using hd_dropWhile [of "\<lambda>c. c \<noteq> nl" rest] by simp
  ultimately have "dropWhile (\<lambda>c. c \<noteq> nl) rest = nl # tl (dropWhile (\<lambda>c. c \<noteq> nl) rest)"
    by (cases "dropWhile (\<lambda>c. c \<noteq> nl) rest") auto
  then show ?thesis
    using takeWhile_dropWhile_id [of "\<lambda>c. c \<noteq> nl" rest] by simp
qed

lemma GetLines_body_newline:
  "GetLines_body (nl # t) = (if t = [] then [] else GetLines_body t)"
  by (subst GetLines_body.simps) simp

lemma GetLines_body_last:
  assumes "nl \<notin> set rest"
  shows "GetLines_body rest = [rest]"
proof -
  from assms have "\<not> (rest \<noteq> [] \<and> hd rest = nl)"
    by (cases rest) auto
  with assms show ?thesis
    by (subst GetLines_body.simps) (simp only: if_False if_True not_False_eq_True)
qed

lemma GetLines_body_line:
  assumes "\<not> (rest \<noteq> [] \<and> hd rest = nl)" and "nl \<in> set rest"
  shows "GetLines_body rest =
         takeWhile (\<lambda>c. c \<noteq> nl) rest #
         (if tl (dropWhile (\<lambda>c. c \<noteq> nl) rest) = [] then []
          else GetLines_body (tl (dropWhile (\<lambda>c. c \<noteq> nl) rest)))"
proof -
  from assms(2) have "\<not> nl \<notin> set rest" by simp
  with assms(1) show ?thesis
    by (subst GetLines_body.simps) (simp only: if_False Let_def)
qed

lemma GetWords_of_lines:
  "concat (map GetWordsFromStringView (GetLines_body rest)) = GetWordsFromStringView rest"
proof (induction rest rule: GetLines_body.induct)
  case (1 rest)
  show ?case
  proof (cases "rest \<noteq> [] \<and> hd rest = nl")
    case True
    then have rest: "rest = nl # tl rest"
      by (cases rest) auto
    have "GetLines_body rest = (if tl rest = [] then [] else GetLines_body (tl rest))"
      by (subst rest) (rule GetLines_body_newline)
    moreover have "GetWordsFromStringView rest = GetWordsFromStringView (tl rest)"
      by (subst rest) (rule GetWords_skip_newline)
    ultimately show ?thesis
      using 1(1) [OF True] by (cases "tl rest = []") simp_all
  next
    case False
    show ?thesis
    proof (cases "nl \<in> set rest")
      case no: False
      then show ?thesis by (simp add: GetLines_body_last)
    next
      case yes: True
      let ?line = "takeWhile (\<lambda>c. c \<noteq> nl) rest"
      let ?after = "tl (dropWhile (\<lambda>c. c \<noteq> nl) rest)"
      note body = GetLines_body_line [OF False yes]
      from yes have yes': "\<not> nl \<notin> set rest" by simp
      have "GetWordsFromStringView rest = GetWordsFromStringView (?line @ nl # ?after)"
        using split_at_newline [OF yes] by simp
      also have "\<dots> = GetWordsFromStringView ?line @ GetWordsFromStringView ?after"
        by (rule GetWords_append_separator [OF not_isalpha_nl])
      finally show ?thesis
        using body 1(2) [OF False yes' refl] by (cases "?after = []") simp_all
    qed
  qed
qed

lemma line_words_in_text:
  "l \<in> set (GetLinesFromText text) \<Longrightarrow>
   set (GetWordsFromStringView l) \<subseteq> set (GetWordsFromStringView text)"
proof -
  assume "l \<in> set (GetLinesFromText text)"
  then have "set (GetWordsFromStringView l) \<subseteq>
             set (concat (map GetWordsFromStringView (GetLines_body text)))"
    unfolding GetLinesFromText_def by auto
  then show ?thesis
    by (simp only: GetWords_of_lines)
qed

section \<open>The loops of BuildIndex\<close>

lemma collect_words_fst:
  "fst (collect_words ls i (wil, ign)) = wil @ map GetWordsFromStringView ls"
  by (induction ls arbitrary: i wil ign) (simp_all add: Let_def)

lemma collect_words_snd:
  "k \<in> snd (collect_words ls i (wil, ign)) \<longleftrightarrow>
   k \<in> ign \<or> (i \<le> k \<and> k < i + length ls \<and> GetWordsFromStringView (ls ! (k - i)) = [])"
proof (induction ls arbitrary: i wil ign k)
  case Nil
  show ?case by auto
next
  case (Cons l ls)
  have nth: "(l # ls) ! (k - i) = ls ! (k - Suc i)" if "Suc i \<le> k"
    using that by (simp add: nth_Cons')
  show ?case
  proof (cases "k = i")
    case True
    then show ?thesis
      by (simp add: Let_def Cons.IH)
  next
    case False
    then show ?thesis
      using nth by (auto simp: Let_def Cons.IH)
  qed
qed

lemma index_words_fst:
  "fst (index_words text) = map GetWordsFromStringView (GetLinesFromText text)"
  by (simp add: index_words_def collect_words_fst)

lemma index_words_snd:
  "k \<in> snd (index_words text) \<longleftrightarrow>
   k < length (GetLinesFromText text) \<and> GetWordsFromStringView (GetLinesFromText text ! k) = []"
  by (simp add: index_words_def collect_words_snd)

lemma GetTF_nonempty:
  "ws \<noteq> [] \<Longrightarrow> GetTFOfWordsInLine ws keywords = Inr (tf_of ws keywords)"
  by (simp add: GetTFOfWordsInLine_def tf_of_def)

lemma tf_loop_fold:
  "(\<And>j. j < length wil \<Longrightarrow> (i + j \<in> ign \<longleftrightarrow> wil ! j = [])) \<Longrightarrow>
   tf_loop wil i ign keywords st =
     Inr (fold (\<lambda>ws. record_tf keywords (tf_of ws keywords)) (filter (\<lambda>ws. ws \<noteq> []) wil) st)"
proof (induction wil arbitrary: i st)
  case Nil
  show ?case by simp
next
  case (Cons ws wil)
  from Cons.prems [of 0] have head: "i \<in> ign \<longleftrightarrow> ws = []"
    by simp
  have tail: "Suc i + j \<in> ign \<longleftrightarrow> wil ! j = []" if "j < length wil" for j
    using Cons.prems [of "Suc j"] that by simp
  show ?case
    using head Cons.IH [OF tail] by (simp add: GetTF_nonempty)
qed

lemma index_tf_fold:
  "index_tf text =
     Inr (fold (\<lambda>ws. record_tf (GetUniqueWordsFromStringView text)
                       (tf_of ws (GetUniqueWordsFromStringView text)))
            (filter (\<lambda>ws. ws \<noteq> []) (map GetWordsFromStringView (GetLinesFromText text)))
            (\<lambda>w. [], \<lambda>w. 0))"
  unfolding index_tf_def index_words_fst
  by (rule tf_loop_fold) (simp add: index_words_snd)

lemma relevance_words_error:
  "relevance_words kw i tf idf rel = Inl e \<Longrightarrow> e = OutOfRange"
  by (induction kw arbitrary: rel) (auto split: if_splits)

lemma relevance_loop_error:
  "relevance_loop is ign kw tf idf rel = Inl e \<Longrightarrow> e = OutOfRange"
  by (induction "is" arbitrary: rel)
     (auto split: if_splits sum.splits dest: relevance_words_error)

text \<open>
  Claim C9 (the division by the number of words of the line never divides by zero
  during \<open>BuildIndex\<close>). The second loop skips the positions of the ignore list,
  which are exactly the lines without a word, so \<open>GetTFOfWordsInLine\<close> is only
  called with a non-empty word list and the index build never ends in the
  division error.
\<close>

theorem BuildIndex_no_division_by_zero: "BuildIndex text \<noteq> Inl DivisionByZero"
proof
  assume "BuildIndex text = Inl DivisionByZero"
  then show False
    unfolding BuildIndex_def index_tf_fold
    by (auto simp: Let_def split: prod.splits sum.splits dest: relevance_loop_error)
qed

section \<open>The vocabulary covers every line\<close>

lemma vocabulary_sorted:
  "sorted_wrt (<) (map key (GetUniqueWordsFromStringView text))"
  unfolding GetUniqueWords_fold by (rule fold_set_insert_sorted) simp

lemma vocabulary_distinct: "distinct (GetUniqueWordsFromStringView text)"
  by (rule sorted_keys_distinct [OF vocabulary_sorted])

lemma vocabulary_keys:
  "key ` set (GetUniqueWordsFromStringView text) = key ` set (GetWordsFromStringView text)"
  by (simp add: GetUniqueWords_fold fold_set_insert_keys)

lemma vocabulary_subset:
  "set (GetUniqueWordsFromStringView text) \<subseteq> set (GetWordsFromStringView text)"
  using fold_set_insert_subset [of "GetWordsFromStringView text" "[]"]
  by (simp add: GetUniqueWords_fold)

lemma line_word_found:
  assumes "l \<in> set (GetLinesFromText text)" and "t \<in> set (GetWordsFromStringView l)"
  shows "\<exists>k. set_find t (GetUniqueWordsFromStringView text) = Some k"
proof -
  from assms have "t \<in> set (GetWordsFromStringView text)"
    using line_words_in_text by blast
  then have "key t \<in> key ` set (GetUniqueWordsFromStringView text)"
    by (simp add: vocabulary_keys)
  with vocabulary_sorted show ?thesis
    by (rule set_find_present)
qed

lemma sum_list_fun_upd:
  "distinct ks \<Longrightarrow> k \<in> set ks \<Longrightarrow>
   sum_list (map (f(k := v)) ks) = sum_list (map f ks) - f k + (v :: real)"
proof (induction ks)
  case Nil
  then show ?case by simp
next
  case (Cons a ks)
  show ?case
  proof (cases "a = k")
    case True
    with Cons.prems have "k \<notin> set ks" by simp
    then have same: "map (f(k := v)) ks = map f ks"
      by (auto simp: fun_upd_def)
    have "sum_list (map (f(k := v)) (a # ks)) = v + sum_list (map (f(k := v)) ks)"
      using True by simp
    also have "\<dots> = v + sum_list (map f ks)"
      by (simp only: same)
    finally have "sum_list (map (f(k := v)) (a # ks)) = v + sum_list (map f ks)" .
    moreover have "sum_list (map f (a # ks)) - f k + v = v + sum_list (map f ks)"
      using True by simp
    ultimately show ?thesis
      by (simp only:)
  next
    case False
    with Cons show ?thesis by simp
  qed
qed

lemma count_keywords_sum:
  "distinct kw \<Longrightarrow> (\<And>t. t \<in> set ws \<Longrightarrow> \<exists>k. set_find t kw = Some k) \<Longrightarrow>
   sum_list (map (count_keywords ws kw cnt) kw) = sum_list (map cnt kw) + real (length ws)"
proof (induction ws arbitrary: cnt)
  case Nil
  show ?case by simp
next
  case (Cons t ws)
  from Cons.prems(2) [of t] obtain k where k: "set_find t kw = Some k"
    by auto
  then have "k \<in> set kw"
    by (simp add: set_find_Some)
  with Cons.prems(1) have "sum_list (map (cnt(k := cnt k + 1)) kw) = sum_list (map cnt kw) + 1"
    by (simp add: sum_list_fun_upd)
  moreover have "sum_list (map (count_keywords ws kw (cnt(k := cnt k + 1))) kw) =
        sum_list (map (cnt(k := cnt k + 1)) kw) + real (length ws)"
    using Cons.prems by (intro Cons.IH) auto
  ultimately show ?case
    using k by simp
qed

lemma divide_keywords_eq:
  "distinct kw \<Longrightarrow>
   divide_keywords kw n r = (\<lambda>w. if w \<in> set kw then r w / n else r w)"
proof (induction kw arbitrary: r)
  case Nil
  show ?case by simp
next
  case (Cons k kw)
  then show ?case by (auto simp: fun_eq_iff)
qed

lemma sum_list_map_divide:
  "sum_list (map (\<lambda>w. f w / (n :: real)) ks) = sum_list (map f ks) / n"
  by (induction ks) (simp_all add: add_divide_distrib)

lemma tf_of_sum:
  assumes "distinct kw" and "ws \<noteq> []"
    and "\<And>t. t \<in> set ws \<Longrightarrow> \<exists>k. set_find t kw = Some k"
  shows "sum_list (map (tf_of ws kw) kw) = 1"
proof -
  have "sum_list (map (tf_of ws kw) kw) =
        sum_list (map (\<lambda>w. count_keywords ws kw (\<lambda>w. 0) w / real (length ws)) kw)"
    unfolding tf_of_def divide_keywords_eq [OF assms(1)]
    by (rule arg_cong [where f = sum_list]) simp
  also have "\<dots> = sum_list (map (count_keywords ws kw (\<lambda>w. 0)) kw) / real (length ws)"
    by (rule sum_list_map_divide)
  also have "\<dots> = real (length ws) / real (length ws)"
    using count_keywords_sum [OF assms(1) assms(3), of ws "\<lambda>w. 0"] by simp
  finally show ?thesis
    using assms(2) by simp
qed

text \<open>
  Claim C10 (for every line of a text that is not ignored, every word of the line has
  an equivalent entry in the vocabulary, so the counts of the first loop of
  \<open>GetTFOfWordsInLine\<close> add up to the number of words of the line, and the term
  frequencies of the line add up to one). The line is addressed by its position
  \<open>i\<close>; it is not ignored when \<open>i\<close> is outside the ignore list.
\<close>

theorem line_tf_sums_to_one:
  assumes "i < length (GetLinesFromText text)" and "i \<notin> snd (index_words text)"
  shows "(\<forall>t \<in> set (GetWordsFromStringView (GetLinesFromText text ! i)).
            \<exists>k. set_find t (GetUniqueWordsFromStringView text) = Some k) \<and>
         sum_list (map (count_keywords (GetWordsFromStringView (GetLinesFromText text ! i))
                          (GetUniqueWordsFromStringView text) (\<lambda>w. 0))
                     (GetUniqueWordsFromStringView text))
           = real (length (GetWordsFromStringView (GetLinesFromText text ! i))) \<and>
         (\<exists>temp. GetTFOfWordsInLine (GetWordsFromStringView (GetLinesFromText text ! i))
                    (GetUniqueWordsFromStringView text) = Inr temp \<and>
                 sum_list (map temp (GetUniqueWordsFromStringView text)) = 1)"
proof -
  let ?l = "GetLinesFromText text ! i"
  let ?ws = "GetWordsFromStringView ?l"
  let ?kw = "GetUniqueWordsFromStringView text"
  from assms(1) have mem: "?l \<in> set (GetLinesFromText text)"
    by simp
  from assms have ne: "?ws \<noteq> []"
    by (simp add: index_words_snd)
  have found: "\<exists>k. set_find t ?kw = Some k" if "t \<in> set ?ws" for t
    using mem that by (rule line_word_found)
  have "sum_list (map (count_keywords ?ws ?kw (\<lambda>w. 0)) ?kw) = real (length ?ws)"
    using count_keywords_sum [OF vocabulary_distinct found, of ?ws "\<lambda>w. 0"] by simp
  moreover have "sum_list (map (tf_of ?ws ?kw) ?kw) = 1"
    using vocabulary_distinct ne found by (rule tf_of_sum)
  ultimately show ?thesis
    using found ne by (simp add: GetTF_nonempty)
qed

section \<open>The ranking example of the specification\<close>

lemma ranking_lines:
  "GetLinesFromText ranking_text = [''cat sat'', ''dog ran'', ''cat cat cat'']"
  by code_simp

lemma ranking_vocabulary:
  "GetUniqueWordsFromStringView ranking_text = [''cat'', ''dog'', ''ran'', ''sat'']"
  by code_simp

lemma ranking_words:
  "index_words ranking_text =
     ([[''cat'', ''sat''], [''dog'', ''ran''], [''cat'', ''cat'', ''cat'']], {})"
  by code_simp

lemma ranking_line_words:
  "GetWordsFromStringView ''cat sat'' = [''cat'', ''sat'']"
  "GetWordsFromStringView ''dog ran'' = [''dog'', ''ran'']"
  "GetWordsFromStringView ''cat cat cat'' = [''cat'', ''cat'', ''cat'']"
  by code_simp+

lemma ranking_find:
  "set_find ''cat'' [''cat'', ''dog'', ''ran'', ''sat''] = Some ''cat''"
  "set_find ''dog'' [''cat'', ''dog'', ''ran'', ''sat''] = Some ''dog''"
  "set_find ''ran'' [''cat'', ''dog'', ''ran'', ''sat''] = Some ''ran''"
  "set_find ''sat'' [''cat'', ''dog'', ''ran'', ''sat''] = Some ''sat''"
  by code_simp+

lemma ranking_query: "GetUniqueWordsFromStringView ''cat'' = [''cat'']"
  by code_simp

theorem line_tf_sums_to_one_witness:
  "2 < length (GetLinesFromText ranking_text) \<and> 2 \<notin> snd (index_words ranking_text) \<and>
   (\<exists>temp. GetTFOfWordsInLine (GetWordsFromStringView (GetLinesFromText ranking_text ! 2))
             (GetUniqueWordsFromStringView ranking_text) = Inr temp \<and>
           sum_list (map temp (GetUniqueWordsFromStringView ranking_text)) = 1)"
proof -
  have h1: "2 < length (GetLinesFromText ranking_text)"
    by (simp add: ranking_lines)
  have h2: "2 \<notin> snd (index_words ranking_text)"
    by (simp add: ranking_words)
  from line_tf_sums_to_one [OF h1 h2] h1 h2 show ?thesis
    by blast
qed

section \<open>Document frequency and inverse document frequency\<close>

lemma record_tf_eq:
  "distinct kw \<Longrightarrow>
   record_tf kw temp (tf, df) =
     (\<lambda>w. if w \<in> set kw then tf w @ [temp w] else tf w,
      \<lambda>w. if w \<in> set kw \<and> temp w \<noteq> 0 then df w + 1 else df w)"
proof (induction kw arbitrary: tf df)
  case Nil
  show ?case by simp
next
  case (Cons k kw)
  then show ?case by (auto simp: fun_eq_iff)
qed

lemma fold_record_tf_eq:
  "distinct kw \<Longrightarrow>
   fold (\<lambda>ws. record_tf kw (tf_of ws kw)) S (tf, df) =
     (\<lambda>w. if w \<in> set kw then tf w @ map (\<lambda>ws. tf_of ws kw w) S else tf w,
      \<lambda>w. if w \<in> set kw then df w + real (length (filter (\<lambda>ws. tf_of ws kw w \<noteq> 0) S))
           else df w)"
proof (induction S arbitrary: tf df)
  case Nil
  show ?case by (simp add: fun_eq_iff)
next
  case (Cons ws S)
  show ?case
    by (simp add: record_tf_eq [OF Cons.prems] Cons.IH [OF Cons.prems] fun_eq_iff)
qed

lemma index_tf_eq:
  "index_tf text =
     Inr (\<lambda>w. if w \<in> set (GetUniqueWordsFromStringView text)
               then map (\<lambda>ws. tf_of ws (GetUniqueWordsFromStringView text) w) (scored_words text)
               else [],
          \<lambda>w. if w \<in> set (GetUniqueWordsFromStringView text)
               then real (length (filter (\<lambda>ws. tf_of ws (GetUniqueWordsFromStringView text) w \<noteq> 0)
                                    (scored_words text)))
               else 0)"
  unfolding index_tf_fold scored_words_def [symmetric]
  by (simp add: fold_record_tf_eq [OF vocabulary_distinct] fun_eq_iff)

lemma idf_loop_eq:
  "distinct kw \<Longrightarrow>
   idf_loop kw n df = (\<lambda>w. if w \<in> set kw \<and> df w \<noteq> 0 then ln (real n / df w) else df w)"
proof (induction kw arbitrary: df)
  case Nil
  show ?case by simp
next
  case (Cons k kw)
  then show ?case by (auto simp: fun_eq_iff)
qed

lemma length_filter_nth:
  "length (filter (\<lambda>i. P (xs ! i)) [0..<length xs]) = length (filter P xs)"
proof -
  have "filter P xs = filter P (map (\<lambda>i. xs ! i) [0..<length xs])"
    by (simp add: map_nth)
  also have "\<dots> = map (\<lambda>i. xs ! i) (filter (\<lambda>i. P (xs ! i)) [0..<length xs])"
    by (simp add: filter_map comp_def)
  finally show ?thesis by simp
qed

lemma document_frequency_eq:
  "document_frequency text w =
     length (filter (\<lambda>ws. tf_of ws (GetUniqueWordsFromStringView text) w \<noteq> 0) (scored_words text))"
proof -
  let ?ls = "GetLinesFromText text"
  let ?kw = "GetUniqueWordsFromStringView text"
  let ?P = "\<lambda>l. GetWordsFromStringView l \<noteq> [] \<and> tf_of (GetWordsFromStringView l) ?kw w \<noteq> 0"
  have "document_frequency text w = length (filter (\<lambda>i. ?P (?ls ! i)) [0..<length ?ls])"
    unfolding document_frequency_def
    by (rule arg_cong [where f = length], rule filter_cong)
       (auto simp: index_words_snd line_tf_def GetTF_nonempty)
  also have "\<dots> = length (filter ?P ?ls)"
    by (rule length_filter_nth)
  also have "\<dots> = length (filter (\<lambda>ws. tf_of ws ?kw w \<noteq> 0) (scored_words text))"
    unfolding scored_words_def
    by (simp add: filter_map comp_def conj_commute)
  finally show ?thesis .
qed

text \<open>
  Claim C5 (after the third loop of \<open>BuildIndex\<close> the weight of every vocabulary word
  \<open>w\<close> is \<open>ln (N / df w)\<close> when \<open>df w > 0\<close> and \<open>0\<close> otherwise, where \<open>N\<close> counts all
  retained lines, the ignored ones too, and \<open>df w\<close> the lines outside the ignore
  list in which the term frequency of \<open>w\<close> is not zero).
\<close>

theorem index_idf_formula:
  "\<exists>word_idf. index_idf text = Inr word_idf \<and>
     (\<forall>w \<in> set (GetUniqueWordsFromStringView text).
        word_idf w =
          (if document_frequency text w > 0
           then ln (real (length (GetLinesFromText text)) / real (document_frequency text w))
           else 0))"
  unfolding index_idf_def index_tf_eq
  by (simp add: idf_loop_eq [OF vocabulary_distinct] document_frequency_eq)

lemma ranking_df_cat: "document_frequency ranking_text ''cat'' = 2"
  by (simp add: document_frequency_def line_tf_def ranking_lines ranking_words
      ranking_vocabulary ranking_line_words GetTFOfWordsInLine_def ranking_find upt_rec
      del: set_find.simps)

theorem index_idf_formula_witness:
  "\<exists>word_idf. index_idf ranking_text = Inr word_idf \<and> word_idf ''cat'' = ln (3 / 2)"
proof -
  have mem: "''cat'' \<in> set (GetUniqueWordsFromStringView ranking_text)"
    by (simp add: ranking_vocabulary)
  from index_idf_formula [of ranking_text] obtain word_idf where
    1: "index_idf ranking_text = Inr word_idf" and
    2: "\<forall>w \<in> set (GetUniqueWordsFromStringView ranking_text).
          word_idf w =
            (if document_frequency ranking_text w > 0
             then ln (real (length (GetLinesFromText ranking_text))
                      / real (document_frequency ranking_text w))
             else 0)"
    by blast
  from 2 mem have "word_idf ''cat'' = ln (3 / 2)"
    by (simp add: ranking_df_cat ranking_lines)
  with 1 show ?thesis by blast
qed

section \<open>The relevance table\<close>

lemma count_keywords_nonneg:
  "(\<And>w. 0 \<le> cnt w) \<Longrightarrow> 0 \<le> count_keywords ws kw cnt w"
proof (induction ws arbitrary: cnt)
  case Nil
  then show ?case by simp
next
  case (Cons t ws)
  show ?case
  proof (cases "set_find t kw")
    case None
    with Cons show ?thesis by simp
  next
    case (Some k)
    have "0 \<le> (cnt(k := cnt k + 1)) w" for w
      using Cons.prems [of w] Cons.prems [of k] by simp
    then have "0 \<le> count_keywords ws kw (cnt(k := cnt k + 1)) w"
      by (rule Cons.IH)
    with Some show ?thesis by simp
  qed
qed

lemma divide_keywords_nonneg:
  "(\<And>w. 0 \<le> r w) \<Longrightarrow> 0 \<le> n \<Longrightarrow> 0 \<le> divide_keywords kw n r w"
proof (induction kw arbitrary: r)
  case Nil
  then show ?case by simp
next
  case (Cons k kw)
  have "0 \<le> (r(k := r k / n)) w" for w
    using Cons.prems(1) [of w] Cons.prems(1) [of k] Cons.prems(2) by simp
  then have "0 \<le> divide_keywords kw n (r(k := r k / n)) w"
    using Cons.prems(2) by (rule Cons.IH)
  then show ?case by simp
qed

lemma tf_of_nonneg: "0 \<le> tf_of ws kw w"
  unfolding tf_of_def
  by (intro divide_keywords_nonneg count_keywords_nonneg) simp_all

lemma relevance_words_ok:
  assumes "\<forall>w. \<forall>x \<in> set (tf w). 0 \<le> x" and "\<forall>w. 0 \<le> idf w"
  shows "relevance_words kw i tf idf rel = Inr rel' \<Longrightarrow> table_ok idf rel \<Longrightarrow> table_ok idf rel'"
proof (induction kw arbitrary: rel)
  case Nil
  then show ?case by simp
next
  case (Cons k kw)
  from Cons.prems(1) have i: "i < length (tf k)"
    by (simp split: if_splits)
  let ?old = "case rel k of None \<Rightarrow> [] | Some v \<Rightarrow> v"
  let ?rel1 = "rel(k \<mapsto> ?old @ [tf k ! i * idf k])"
  from Cons.prems(1) i have step: "relevance_words kw i tf idf ?rel1 = Inr rel'"
    by simp
  from i have "tf k ! i \<in> set (tf k)"
    by (rule nth_mem)
  with assms(1) have "0 \<le> tf k ! i"
    by blast
  then have new: "0 \<le> tf k ! i * idf k"
    using assms(2) by simp
  have old: "\<forall>x \<in> set ?old. 0 \<le> x \<and> (idf k = 0 \<longrightarrow> x = 0)"
  proof (cases "rel k")
    case None
    then show ?thesis by simp
  next
    case (Some v)
    with Cons.prems(2) show ?thesis by (simp add: table_ok_def)
  qed
  have "table_ok idf ?rel1"
    unfolding table_ok_def
  proof (intro allI impI)
    fix w v
    assume wv: "?rel1 w = Some v"
    show "\<forall>x \<in> set v. 0 \<le> x \<and> (idf w = 0 \<longrightarrow> x = 0)"
    proof (cases "w = k")
      case True
      with wv have "v = ?old @ [tf k ! i * idf k]" by simp
      with old new True show ?thesis by auto
    next
      case False
      with wv have "rel w = Some v" by simp
      with Cons.prems(2) show ?thesis by (simp add: table_ok_def)
    qed
  qed
  with step show ?case by (rule Cons.IH)
qed

lemma relevance_loop_ok:
  assumes "\<forall>w. \<forall>x \<in> set (tf w). 0 \<le> x" and "\<forall>w. 0 \<le> idf w"
  shows "relevance_loop is ign kw tf idf rel = Inr rel' \<Longrightarrow> table_ok idf rel \<Longrightarrow> table_ok idf rel'"
proof (induction "is" arbitrary: rel)
  case Nil
  then show ?case by simp
next
  case (Cons i rest)
  show ?case
  proof (cases "i \<in> ign")
    case True
    with Cons show ?thesis by simp
  next
    case False
    with Cons.prems(1) obtain rel1 where
      1: "relevance_words kw i tf idf rel = Inr rel1" and
      2: "relevance_loop rest ign kw tf idf rel1 = Inr rel'"
      by (auto split: sum.splits)
    have "table_ok idf rel1"
      by (rule relevance_words_ok [OF assms 1 Cons.prems(2)])
    with 2 show ?thesis by (rule Cons.IH)
  qed
qed

lemma relevance_words_Inr:
  "distinct kw \<Longrightarrow> relevance_words kw i tf idf rel = Inr rel' \<Longrightarrow>
   (\<forall>w \<in> set kw. i < length (tf w)) \<and>
   (\<forall>w. w \<notin> set kw \<longrightarrow> rel' w = rel w) \<and>
   (\<forall>w \<in> set kw. \<exists>v'. rel' w = Some v' \<and>
        length v' = Suc (case rel w of None \<Rightarrow> 0 | Some v \<Rightarrow> length v))"
proof (induction kw arbitrary: rel)
  case Nil
  then show ?case by simp
next
  case (Cons k kw)
  from Cons.prems(2) have i: "i < length (tf k)"
    by (simp split: if_splits)
  let ?old = "case rel k of None \<Rightarrow> [] | Some v \<Rightarrow> v"
  let ?rel1 = "rel(k \<mapsto> ?old @ [tf k ! i * idf k])"
  from Cons.prems(2) i have step: "relevance_words kw i tf idf ?rel1 = Inr rel'"
    by simp
  from Cons.prems(1) have k: "k \<notin> set kw" and d: "distinct kw"
    by simp_all
  note IH = Cons.IH [OF d step]
  have "length ?old = (case rel k of None \<Rightarrow> 0 | Some v \<Rightarrow> length v)"
    by (simp split: option.splits)
  with IH k i show ?case
    by (auto split: if_splits)
qed

lemma relevance_loop_Inr:
  "distinct kw \<Longrightarrow> relevance_loop is ign kw tf idf rel = Inr rel' \<Longrightarrow>
   (\<forall>i \<in> set is. i \<notin> ign \<longrightarrow> (\<forall>w \<in> set kw. i < length (tf w))) \<and>
   (\<forall>w. w \<notin> set kw \<longrightarrow> rel' w = rel w) \<and>
   (\<forall>w v'. w \<in> set kw \<longrightarrow> rel' w = Some v' \<longrightarrow>
        length v' = (case rel w of None \<Rightarrow> 0 | Some v \<Rightarrow> length v)
                    + length (filter (\<lambda>i. i \<notin> ign) is))"
proof (induction "is" arbitrary: rel)
  case Nil
  then show ?case by (auto split: option.splits)
next
  case (Cons i rest)
  show ?case
  proof (cases "i \<in> ign")
    case True
    with Cons.prems(2) have "relevance_loop rest ign kw tf idf rel = Inr rel'"
      by simp
    from Cons.IH [OF Cons.prems(1) this] True show ?thesis
      by simp
  next
    case False
    with Cons.prems(2) obtain rel1 where
      1: "relevance_words kw i tf idf rel = Inr rel1" and
      2: "relevance_loop rest ign kw tf idf rel1 = Inr rel'"
      by (auto split: sum.splits)
    note W = relevance_words_Inr [OF Cons.prems(1) 1]
    note L = Cons.IH [OF Cons.prems(1) 2]
    have "length v' = (case rel w of None \<Rightarrow> 0 | Some v \<Rightarrow> length v)
                    + length (filter (\<lambda>i. i \<notin> ign) (i # rest))"
      if w: "w \<in> set kw" and v': "rel' w = Some v'" for w v'
    proof -
      from W w obtain v1 where v1: "rel1 w = Some v1"
        and len1: "length v1 = Suc (case rel w of None \<Rightarrow> 0 | Some v \<Rightarrow> length v)"
        by blast
      from L w v' have "length v' = (case rel1 w of None \<Rightarrow> 0 | Some v \<Rightarrow> length v)
                    + length (filter (\<lambda>i. i \<notin> ign) rest)"
        by blast
      with v1 len1 False show ?thesis by simp
    qed
    moreover have "\<forall>w. w \<notin> set kw \<longrightarrow> rel' w = rel w"
      using W L by simp
    moreover have "\<forall>j \<in> set (i # rest). j \<notin> ign \<longrightarrow> (\<forall>w \<in> set kw. j < length (tf w))"
      using W L by simp
    ultimately show ?thesis by blast
  qed
qed

lemma BuildIndex_Inr:
  assumes "BuildIndex text = Inr eng"
  shows "\<exists>tf df. index_tf text = Inr (tf, df) \<and>
           relevance_loop [0..<length (GetLinesFromText text)] (snd (index_words text))
             (GetUniqueWordsFromStringView text) tf
             (idf_loop (GetUniqueWordsFromStringView text) (length (GetLinesFromText text)) df)
             Map.empty = Inr (words_relevance_in_lines eng)"
    and "lines eng = GetLinesFromText text"
    and "ignore_list eng = snd (index_words text)"
    and "text_words eng = GetUniqueWordsFromStringView text"
  using assms
  by (auto simp: BuildIndex_def Let_def split: sum.splits prod.splits)

lemma idf_loop_nonneg:
  assumes "distinct kw" and "\<forall>w. \<exists>d. df w = real d \<and> d \<le> n"
  shows "0 \<le> idf_loop kw n df w"
proof -
  from assms(2) obtain d where d: "df w = real d" "d \<le> n"
    by blast
  show ?thesis
  proof (cases "w \<in> set kw \<and> df w \<noteq> 0")
    case True
    with d have "1 \<le> real n / real d"
      by simp
    then have "0 \<le> ln (real n / real d)"
      by (rule ln_ge_zero)
    with True d show ?thesis
      by (simp add: idf_loop_eq [OF assms(1)])
  next
    case False
    with d show ?thesis
      by (auto simp: idf_loop_eq [OF assms(1)])
  qed
qed

lemma scored_count:
  "length (filter (\<lambda>i. i \<notin> snd (index_words text)) [0..<length (GetLinesFromText text)])
     = length (scored_words text)"
proof -
  let ?ls = "GetLinesFromText text"
  have "length (filter (\<lambda>i. i \<notin> snd (index_words text)) [0..<length ?ls])
        = length (filter (\<lambda>i. GetWordsFromStringView (?ls ! i) \<noteq> []) [0..<length ?ls])"
    by (rule arg_cong [where f = length], rule filter_cong) (auto simp: index_words_snd)
  also have "\<dots> = length (filter (\<lambda>l. GetWordsFromStringView l \<noteq> []) ?ls)"
    by (rule length_filter_nth)
  also have "\<dots> = length (scored_words text)"
    unfolding scored_words_def by (simp add: filter_map comp_def)
  finally show ?thesis .
qed

lemma scored_words_le: "length (scored_words text) \<le> length (GetLinesFromText text)"
proof -
  have "length (scored_words text) \<le> length (map GetWordsFromStringView (GetLinesFromText text))"
    unfolding scored_words_def by (rule length_filter_le)
  then show ?thesis by simp
qed

text \<open>What every successfully built index satisfies.\<close>

lemma built_table:
  assumes "BuildIndex text = Inr eng" and "words_relevance_in_lines eng w = Some v"
  shows "\<forall>x \<in> set v. 0 \<le> x"
    and "document_frequency text w = 0 \<Longrightarrow> \<forall>x \<in> set v. x = 0"
    and "w \<in> set (GetUniqueWordsFromStringView text)"
    and "\<forall>i < length (GetLinesFromText text). i \<notin> snd (index_words text) \<longrightarrow> i < length v"
proof -
  let ?kw = "GetUniqueWordsFromStringView text"
  let ?n = "length (GetLinesFromText text)"
  let ?ign = "snd (index_words text)"
  let ?tf = "\<lambda>w. if w \<in> set ?kw then map (\<lambda>ws. tf_of ws ?kw w) (scored_words text) else []"
  let ?df = "\<lambda>w. if w \<in> set ?kw
                  then real (length (filter (\<lambda>ws. tf_of ws ?kw w \<noteq> 0) (scored_words text)))
                  else 0"
  let ?idf = "idf_loop ?kw ?n ?df"
  let ?rel = "words_relevance_in_lines eng"
  from BuildIndex_Inr(1) [OF assms(1)]
  have loop: "relevance_loop [0..<?n] ?ign ?kw ?tf ?idf Map.empty = Inr ?rel"
    unfolding index_tf_eq by simp
  have tf_nonneg: "\<forall>w. \<forall>x \<in> set (?tf w). 0 \<le> x"
    by (auto simp: tf_of_nonneg)
  have df_nat: "\<forall>w. \<exists>d. ?df w = real d \<and> d \<le> ?n"
  proof
    fix w
    have "length (filter (\<lambda>ws. tf_of ws ?kw w \<noteq> 0) (scored_words text)) \<le> ?n"
      by (rule order_trans [OF length_filter_le scored_words_le])
    then show "\<exists>d. ?df w = real d \<and> d \<le> ?n"
      by (cases "w \<in> set ?kw") (auto intro: exI [of _ 0])
  qed
  have idf_nonneg: "\<forall>w. 0 \<le> ?idf w"
    using idf_loop_nonneg [OF vocabulary_distinct df_nat] by blast
  have "table_ok ?idf Map.empty"
    by (simp add: table_ok_def)
  with loop have ok: "table_ok ?idf ?rel"
    by (rule relevance_loop_ok [OF tf_nonneg idf_nonneg])
  with assms(2) show "\<forall>x \<in> set v. 0 \<le> x"
    by (simp add: table_ok_def)
  show "\<forall>x \<in> set v. x = 0" if "document_frequency text w = 0"
  proof -
    from that have "?df w = 0"
      by (simp add: document_frequency_eq)
    then have "?idf w = 0"
      by (simp add: idf_loop_eq [OF vocabulary_distinct])
    with ok assms(2) show ?thesis
      by (simp add: table_ok_def)
  qed
  note L = relevance_loop_Inr [OF vocabulary_distinct loop]
  from L assms(2) show w: "w \<in> set ?kw"
    by (cases "w \<in> set ?kw") auto
  with L assms(2) have len: "length v = length (scored_words text)"
    by (simp add: scored_count)
  from L w have "\<forall>i \<in> set [0..<?n]. i \<notin> ?ign \<longrightarrow> i < length (?tf w)"
    by blast
  with w len show "\<forall>i < ?n. i \<notin> ?ign \<longrightarrow> i < length v"
    by simp
qed

text \<open>
  On an index that \<open>BuildIndex\<close> returns, every entry of the relevance table is greater
  than or equal to zero: a term frequency is a count divided by a positive length, and
  the weight of a word is \<open>0\<close> or \<open>ln (N / df)\<close> with \<open>1 \<le> df \<le> N\<close>. A word of document
  frequency zero would have zero entries only, but there is no such word in the table
  (lemma \<open>vocabulary_word_occurs\<close> below).
\<close>

lemma built_table_nonneg:
  assumes "BuildIndex text = Inr eng" and "words_relevance_in_lines eng w = Some v"
  shows "(\<forall>x \<in> set v. 0 \<le> x) \<and> (document_frequency text w = 0 \<longrightarrow> (\<forall>x \<in> set v. x = 0))"
  using built_table(1,2) [OF assms] by blast

lemma ranking_index:
  "\<exists>eng. BuildIndex ranking_text = Inr eng \<and>
     lines eng = [''cat sat'', ''dog ran'', ''cat cat cat''] \<and> ignore_list eng = {} \<and>
     words_relevance_in_lines eng ''cat'' = Some [ln (3 / 2) / 2, 0, ln (3 / 2)]"
  by (simp add: BuildIndex_def index_tf_def ranking_vocabulary ranking_words ranking_lines
      GetTFOfWordsInLine_def ranking_find upt_rec del: set_find.simps)

text \<open>
  Claim C8 (after every \<open>BuildIndex\<close> on any text, every entry of the relevance table
  is greater than or equal to zero, and a vocabulary word that occurs in no line
  outside the ignore list has relevance zero on every line). The text
  \<open>2 + 2\<newline>four\<close> has the retained lines \<open>2 + 2\<close>, which has no word and is
  ignored, and \<open>four\<close>. After the second loop \<open>word_tf_in_line["four"]\<close> is the
  one-element vector of the term frequency \<open>1\<close> in the line \<open>four\<close>, and after the
  third loop the weight of the word is \<open>ln 2\<close>. The entry of the table for the line
  \<open>four\<close> is the product of line 84, \<open>word_tf_in_line["four"][1] * word_idf["four"]\<close>:
  its first factor is read behind the end of the vector, so the source gives the
  entry no value, and no sign. It is the read that fails on the text \<open>1\<newline>a\<close>
  above.
\<close>

theorem relevance_table_ignored_line_first:
  "index_tf ''2 + 2\<newline>four'' = Inr ((\<lambda>w. [])(''four'' := [1]), (\<lambda>w. 0)(''four'' := 1)) \<and>
   index_idf ''2 + 2\<newline>four'' = Inr ((\<lambda>w. 0)(''four'' := ln 2)) \<and>
   BuildIndex ''2 + 2\<newline>four'' = Inl OutOfRange"
proof -
  have tf: "index_tf ''2 + 2\<newline>four''
      = Inr ((\<lambda>w. [])(''four'' := [1]), (\<lambda>w. 0)(''four'' := 1))"
    by (simp add: index_tf_def vocabulary_sum_then_word words_sum_then_word
        GetTFOfWordsInLine_def)
  moreover have "index_idf ''2 + 2\<newline>four'' = Inr ((\<lambda>w. 0)(''four'' := ln 2))"
    by (simp add: index_idf_def tf vocabulary_sum_then_word lines_sum_then_word fun_eq_iff)
  moreover have "BuildIndex ''2 + 2\<newline>four'' = Inl OutOfRange"
    by (simp add: BuildIndex_def tf lines_sum_then_word vocabulary_sum_then_word
        words_sum_then_word)
  ultimately show ?thesis
    by blast
qed

lemma set_find_self:
  assumes "sorted_wrt (<) (map key kw)" and "w \<in> set kw"
  shows "set_find w kw = Some w"
proof -
  from assms(2) have "key w \<in> key ` set kw"
    by simp
  with assms(1) obtain k where k: "set_find w kw = Some k"
    using set_find_present by blast
  then have "k \<in> set kw" and "key k = key w"
    by (simp_all add: set_find_Some)
  moreover from assms(1) have "distinct (map key kw)"
    using strict_sorted_iff by blast
  then have "inj_on key (set kw)"
    by (simp add: distinct_map)
  ultimately have "k = w"
    using assms(2) by (auto dest: inj_onD)
  with k show ?thesis by simp
qed

lemma count_keywords_mono: "cnt w \<le> count_keywords ws kw cnt w"
proof (induction ws arbitrary: cnt)
  case Nil
  show ?case by simp
next
  case (Cons t ws)
  show ?case
  proof (cases "set_find t kw")
    case None
    with Cons.IH [of cnt] show ?thesis by simp
  next
    case (Some k)
    have "cnt w \<le> (cnt(k := cnt k + 1)) w"
      by simp
    also have "\<dots> \<le> count_keywords ws kw (cnt(k := cnt k + 1)) w"
      by (rule Cons.IH)
    finally show ?thesis
      using Some by simp
  qed
qed

lemma count_keywords_present:
  assumes "set_find w kw = Some w" and "w \<in> set ws"
  shows "cnt w + 1 \<le> count_keywords ws kw cnt w"
  using assms(2)
proof (induction ws arbitrary: cnt)
  case Nil
  then show ?case by simp
next
  case (Cons t ws)
  show ?case
  proof (cases "t = w")
    case True
    have "cnt w + 1 = (cnt(w := cnt w + 1)) w"
      by simp
    also have "\<dots> \<le> count_keywords ws kw (cnt(w := cnt w + 1)) w"
      by (rule count_keywords_mono)
    finally show ?thesis
      using True assms(1) by simp
  next
    case False
    with Cons.prems have mem: "w \<in> set ws"
      by simp
    show ?thesis
    proof (cases "set_find t kw")
      case None
      with Cons.IH [OF mem, of cnt] show ?thesis by simp
    next
      case (Some k)
      have "cnt w + 1 \<le> (cnt(k := cnt k + 1)) w + 1"
        by simp
      also have "\<dots> \<le> count_keywords ws kw (cnt(k := cnt k + 1)) w"
        by (rule Cons.IH [OF mem])
      finally show ?thesis
        using Some by simp
    qed
  qed
qed

text \<open>
  Every word of the vocabulary occurs in a line that is not ignored: the document
  frequency of a vocabulary word is never zero.
\<close>

lemma vocabulary_word_occurs:
  assumes "w \<in> set (GetUniqueWordsFromStringView text)"
  shows "0 < document_frequency text w"
proof -
  let ?kw = "GetUniqueWordsFromStringView text"
  from assms vocabulary_subset have "w \<in> set (GetWordsFromStringView text)"
    by blast
  then have "w \<in> set (concat (map GetWordsFromStringView (GetLines_body text)))"
    by (simp only: GetWords_of_lines)
  then obtain l where l: "l \<in> set (GetLinesFromText text)" "w \<in> set (GetWordsFromStringView l)"
    unfolding GetLinesFromText_def by auto
  let ?ws = "GetWordsFromStringView l"
  from l(2) have ne: "?ws \<noteq> []"
    by auto
  with l(1) have scored: "?ws \<in> set (scored_words text)"
    by (simp add: scored_words_def)
  have "set_find w ?kw = Some w"
    using vocabulary_sorted assms by (rule set_find_self)
  then have "0 + 1 \<le> count_keywords ?ws ?kw (\<lambda>w. 0) w"
    using l(2) by (rule count_keywords_present)
  with ne assms have "tf_of ?ws ?kw w \<noteq> 0"
    by (simp add: tf_of_def divide_keywords_eq [OF vocabulary_distinct])
  with scored have "?ws \<in> set (filter (\<lambda>ws. tf_of ws ?kw w \<noteq> 0) (scored_words text))"
    by simp
  then show ?thesis
    unfolding document_frequency_eq by (rule length_pos_if_in_set)
qed

section \<open>The texts whose index is built\<close>

lemma relevance_words_total:
  "\<forall>w \<in> set kw. i < length (tf w) \<Longrightarrow> \<exists>rel'. relevance_words kw i tf idf rel = Inr rel'"
  by (induction kw arbitrary: rel) simp_all

lemma relevance_loop_total:
  "\<forall>i \<in> set is. i \<notin> ign \<longrightarrow> (\<forall>w \<in> set kw. i < length (tf w)) \<Longrightarrow>
   \<exists>rel'. relevance_loop is ign kw tf idf rel = Inr rel'"
proof (induction "is" arbitrary: rel)
  case Nil
  then show ?case by simp
next
  case (Cons i rest)
  show ?case
  proof (cases "i \<in> ign")
    case True
    with Cons show ?thesis by simp
  next
    case False
    with Cons.prems have "\<forall>w \<in> set kw. i < length (tf w)"
      by simp
    from relevance_words_total [OF this] obtain rel1 where
      "relevance_words kw i tf idf rel = Inr rel1"
      by blast
    moreover from Cons.IH [of rel1] Cons.prems obtain rel' where
      "relevance_loop rest ign kw tf idf rel1 = Inr rel'"
      by auto
    ultimately show ?thesis
      using False by simp
  qed
qed

lemma initial_segment:
  fixes S :: "nat set"
  assumes "finite S" and "\<forall>j \<in> S. j < card S"
  shows "S = {..<card S}"
proof (rule card_subset_eq)
  show "finite {..<card S}" by simp
  show "S \<subseteq> {..<card S}" using assms(2) by auto
  show "card S = card {..<card S}" by simp
qed

lemma scored_card:
  "length (scored_words text)
     = card {i. i < length (GetLinesFromText text) \<and> i \<notin> snd (index_words text)}"
proof -
  have "length (scored_words text)
      = card ({i. i \<notin> snd (index_words text)} \<inter> set [0..<length (GetLinesFromText text)])"
    unfolding scored_count [symmetric] by (rule distinct_length_filter) simp
  also have "{i. i \<notin> snd (index_words text)} \<inter> set [0..<length (GetLinesFromText text)]
      = {i. i < length (GetLinesFromText text) \<and> i \<notin> snd (index_words text)}"
    by auto
  finally show ?thesis .
qed

text \<open>
  \<open>BuildIndex\<close> completes without a read out of range exactly on the texts in which no
  ignored line comes in front of a scored line. On every other text the read of line
  84 leaves the vector, for the last scored line at the latest.
\<close>

lemma BuildIndex_returns_iff:
  "(\<exists>eng. BuildIndex text = Inr eng) \<longleftrightarrow>
   (\<forall>i j. i < j \<and> j < length (GetLinesFromText text) \<and> i \<in> snd (index_words text)
          \<longrightarrow> j \<in> snd (index_words text))"
proof
  let ?kw = "GetUniqueWordsFromStringView text"
  let ?n = "length (GetLinesFromText text)"
  let ?ign = "snd (index_words text)"
  let ?S = "{i. i < ?n \<and> i \<notin> ?ign}"
  let ?tf = "\<lambda>w. if w \<in> set ?kw then map (\<lambda>ws. tf_of ws ?kw w) (scored_words text) else []"
  let ?df = "\<lambda>w. if w \<in> set ?kw
                  then real (length (filter (\<lambda>ws. tf_of ws ?kw w \<noteq> 0) (scored_words text)))
                  else 0"
  let ?idf = "idf_loop ?kw ?n ?df"
  have finite: "finite ?S"
    by simp
  {
    assume "\<exists>eng. BuildIndex text = Inr eng"
    then obtain eng where eng: "BuildIndex text = Inr eng"
      by blast
    from BuildIndex_Inr(1) [OF eng]
    have loop: "relevance_loop [0..<?n] ?ign ?kw ?tf ?idf Map.empty
        = Inr (words_relevance_in_lines eng)"
      unfolding index_tf_eq by simp
    from relevance_loop_Inr [OF vocabulary_distinct loop]
    have reads: "\<forall>i \<in> set [0..<?n]. i \<notin> ?ign \<longrightarrow> (\<forall>w \<in> set ?kw. i < length (?tf w))"
      by blast
    show "\<forall>i j. i < j \<and> j < ?n \<and> i \<in> ?ign \<longrightarrow> j \<in> ?ign"
    proof (intro allI impI, rule ccontr)
      fix i j
      assume ij: "i < j \<and> j < ?n \<and> i \<in> ?ign" and j: "j \<notin> ?ign"
      from ij j have "GetWordsFromStringView (GetLinesFromText text ! j) \<noteq> []"
        by (simp add: index_words_snd)
      then obtain t where "t \<in> set (GetWordsFromStringView (GetLinesFromText text ! j))"
        by (cases "GetWordsFromStringView (GetLinesFromText text ! j)") auto
      with ij line_word_found [of "GetLinesFromText text ! j" "text" t] obtain w where
        "set_find t ?kw = Some w"
        by auto
      then have w: "w \<in> set ?kw"
        by (simp add: set_find_Some)
      have "\<forall>k \<in> ?S. k < card ?S"
      proof
        fix k
        assume "k \<in> ?S"
        with reads w have "k < length (?tf w)"
          by auto
        with w show "k < card ?S"
          by (simp add: scored_card)
      qed
      with finite have S: "?S = {..<card ?S}"
        by (rule initial_segment)
      from ij j have "j \<in> ?S"
        by simp
      with S have "j < card ?S"
        by blast
      with ij have "i \<in> {..<card ?S}"
        by simp
      with S have "i \<in> ?S"
        by blast
      with ij show False
        by simp
    qed
  }
  {
    assume suffix: "\<forall>i j. i < j \<and> j < ?n \<and> i \<in> ?ign \<longrightarrow> j \<in> ?ign"
    have "\<forall>i \<in> set [0..<?n]. i \<notin> ?ign \<longrightarrow> (\<forall>w \<in> set ?kw. i < length (?tf w))"
    proof (intro ballI impI)
      fix i w
      assume i: "i \<in> set [0..<?n]" "i \<notin> ?ign" and w: "w \<in> set ?kw"
      have "{..i} \<subseteq> ?S"
      proof
        fix k
        assume k: "k \<in> {..i}"
        show "k \<in> ?S"
        proof (cases "k = i")
          case True
          with i show ?thesis by simp
        next
          case False
          with k have "k < i"
            by simp
          with suffix i have "k \<notin> ?ign"
            by auto
          with \<open>k < i\<close> i show ?thesis
            by simp
        qed
      qed
      with finite have "card {..i} \<le> card ?S"
        by (rule card_mono)
      then have "i < card ?S"
        by simp
      with w show "i < length (?tf w)"
        by (simp add: scored_card)
    qed
    from relevance_loop_total [OF this, of ?idf Map.empty] obtain rel where
      "relevance_loop [0..<?n] ?ign ?kw ?tf ?idf Map.empty = Inr rel"
      by blast
    then show "\<exists>eng. BuildIndex text = Inr eng"
      by (simp add: BuildIndex_def index_tf_eq)
  }
qed

section \<open>Search on a built index\<close>

lemma line_relevance_Inr:
  assumes "\<forall>w v. rel w = Some v \<longrightarrow> i < length v \<and> (\<forall>x \<in> set v. 0 \<le> x)"
  shows "0 \<le> r \<Longrightarrow> \<exists>r'. line_relevance qw rel i r = Inr r' \<and> 0 \<le> r'"
proof (induction qw arbitrary: r)
  case Nil
  then show ?case by simp
next
  case (Cons word qw)
  show ?case
  proof (cases "rel word")
    case None
    with Cons show ?thesis by simp
  next
    case (Some v)
    with assms have i: "i < length v" and nonneg: "\<forall>x \<in> set v. 0 \<le> x"
      by blast+
    from i have "v ! i \<in> set v"
      by (rule nth_mem)
    with nonneg Cons.prems have "0 \<le> r + v ! i"
      by (simp add: add_nonneg_nonneg)
    then have "\<exists>r'. line_relevance qw rel i (r + v ! i) = Inr r' \<and> 0 \<le> r'"
      by (rule Cons.IH)
    with Some i show ?thesis by simp
  qed
qed

lemma score_lines_Inr:
  assumes "\<forall>i \<in> set is. i \<notin> ign \<longrightarrow>
             (\<forall>w v. rel w = Some v \<longrightarrow> i < length v \<and> (\<forall>x \<in> set v. 0 \<le> x))"
  shows "\<exists>lr. score_lines is ign qw rel acc = Inr lr \<and>
           (\<forall>e \<in> set lr. e \<in> set acc \<or>
              (pos e \<in> set is \<and> pos e \<notin> ign \<and>
               line_relevance qw rel (pos e) 0 = Inr (relevance e) \<and> 0 \<le> relevance e))"
  using assms
proof (induction "is" arbitrary: acc)
  case Nil
  show ?case by simp
next
  case (Cons i rest)
  from Cons.prems have rest: "\<forall>i \<in> set rest. i \<notin> ign \<longrightarrow>
             (\<forall>w v. rel w = Some v \<longrightarrow> i < length v \<and> (\<forall>x \<in> set v. 0 \<le> x))"
    by simp
  show ?case
  proof (cases "i \<in> ign")
    case True
    with Cons.IH [OF rest, of acc] show ?thesis
      by auto
  next
    case False
    with Cons.prems have "\<forall>w v. rel w = Some v \<longrightarrow> i < length v \<and> (\<forall>x \<in> set v. 0 \<le> x)"
      by simp
    from line_relevance_Inr [OF this, of 0 qw] obtain r where
      r: "line_relevance qw rel i 0 = Inr r" "0 \<le> r"
      by auto
    from Cons.IH [OF rest, of "acc @ [\<lparr>relevance = r, pos = i\<rparr>]"] obtain lr where
      lr: "score_lines rest ign qw rel (acc @ [\<lparr>relevance = r, pos = i\<rparr>]) = Inr lr"
        "\<forall>e \<in> set lr. e \<in> set (acc @ [\<lparr>relevance = r, pos = i\<rparr>]) \<or>
              (pos e \<in> set rest \<and> pos e \<notin> ign \<and>
               line_relevance qw rel (pos e) 0 = Inr (relevance e) \<and> 0 \<le> relevance e)"
      by blast
    from lr(1) False r(1) have "score_lines (i # rest) ign qw rel acc = Inr lr"
      by simp
    moreover from lr(2) r False have "\<forall>e \<in> set lr. e \<in> set acc \<or>
              (pos e \<in> set (i # rest) \<and> pos e \<notin> ign \<and>
               line_relevance qw rel (pos e) 0 = Inr (relevance e) \<and> 0 \<le> relevance e)"
      by auto
    ultimately show ?thesis by blast
  qed
qed

lemma set_unguarded_linear_insert:
  "set (unguarded_linear_insert cmp val ys) = insert val (set ys)"
  by (induction ys) auto

lemma set_insertion_sort: "set (insertion_sort cmp front xs) = set front \<union> set xs"
proof (induction xs arbitrary: front)
  case Nil
  show ?case by simp
next
  case (Cons val rest)
  show ?case
    by (cases front) (auto simp: Cons.IH set_unguarded_linear_insert)
qed

lemma set_std_sort: "set (std_sort cmp xs) = set xs"
  by (simp add: std_sort_def set_insertion_sort)

lemma collect_results_Inr:
  assumes "\<forall>r \<in> set rs. pos r < length ls"
  shows "\<exists>res. collect_results rs i k ls acc = Inr res \<and>
           length res \<le> length acc + (k - i) \<and>
           (\<forall>l \<in> set res. l \<in> set acc \<or> (\<exists>r \<in> set rs. relevance r \<noteq> 0 \<and> l = ls ! pos r))"
  using assms
proof (induction rs arbitrary: i acc)
  case Nil
  show ?case by simp
next
  case (Cons r rs)
  show ?case
  proof (cases "i \<ge> k \<or> relevance r = 0")
    case True
    then show ?thesis by auto
  next
    case False
    from Cons.prems have p: "pos r < length ls" and rest: "\<forall>r \<in> set rs. pos r < length ls"
      by simp_all
    from Cons.IH [OF rest, of "Suc i" "acc @ [ls ! pos r]"] obtain res where
      res: "collect_results rs (Suc i) k ls (acc @ [ls ! pos r]) = Inr res"
        "length res \<le> length (acc @ [ls ! pos r]) + (k - Suc i)"
        "\<forall>l \<in> set res. l \<in> set (acc @ [ls ! pos r]) \<or>
            (\<exists>r \<in> set rs. relevance r \<noteq> 0 \<and> l = ls ! pos r)"
      by blast
    from res(1) False p have "collect_results (r # rs) i k ls acc = Inr res"
      by simp
    moreover from res(2) False have "length res \<le> length acc + (k - i)"
      by auto
    moreover from res(3) False have
      "\<forall>l \<in> set res. l \<in> set acc \<or> (\<exists>r \<in> set (r # rs). relevance r \<noteq> 0 \<and> l = ls ! pos r)"
      by auto
    ultimately show ?thesis by blast
  qed
qed

text \<open>
  On an index that \<open>BuildIndex\<close> returns, \<open>Search\<close> returns a result, for every query
  and every \<open>results_count\<close>: no read of the table is out of range. The result has at
  most \<open>results_count\<close> elements, and every element is the line at a position \<open>p\<close>
  outside the ignore list whose score, the sum that the scoring loop computes for
  \<open>p\<close>, is positive; the line has a word.
\<close>

lemma built_Search_bounds:
  assumes "BuildIndex text = Inr eng"
  shows "\<exists>res. Search eng query results_count = Inr res \<and> length res \<le> results_count \<and>
           (\<forall>l \<in> set res. \<exists>p r.
              p < length (lines eng) \<and> p \<notin> ignore_list eng \<and> l = lines eng ! p \<and>
              line_relevance (GetUniqueWordsFromStringView query)
                (words_relevance_in_lines eng) p 0 = Inr r \<and>
              0 < r \<and> GetWordsFromStringView l \<noteq> [])"
proof (cases "results_count = 0 \<or> lines eng = []")
  case True
  then show ?thesis
    by (simp add: Search_def)
next
  case False
  let ?n = "length (lines eng)"
  let ?ign = "ignore_list eng"
  let ?rel = "words_relevance_in_lines eng"
  let ?qw = "GetUniqueWordsFromStringView query"
  note B = BuildIndex_Inr(2,3) [OF assms]
  have good: "\<forall>i \<in> set [0..<?n]. i \<notin> ?ign \<longrightarrow>
             (\<forall>w v. ?rel w = Some v \<longrightarrow> i < length v \<and> (\<forall>x \<in> set v. 0 \<le> x))"
    using built_table(1,4) [OF assms] B by auto
  from score_lines_Inr [OF good, of ?qw "[]"] obtain lr where
    lr: "score_lines [0..<?n] ?ign ?qw ?rel [] = Inr lr"
      "\<forall>e \<in> set lr. pos e \<in> set [0..<?n] \<and> pos e \<notin> ?ign \<and>
          line_relevance ?qw ?rel (pos e) 0 = Inr (relevance e) \<and> 0 \<le> relevance e"
    by auto
  let ?sorted = "rev (std_sort less_relevance (rev lr))"
  have sorted: "set ?sorted = set lr"
    by (simp add: set_std_sort)
  with lr(2) have "\<forall>r \<in> set ?sorted. pos r < length (lines eng)"
    by simp
  from collect_results_Inr [OF this, of 0 results_count "[]"] obtain res where
    res: "collect_results ?sorted 0 results_count (lines eng) [] = Inr res"
      "length res \<le> results_count"
      "\<forall>l \<in> set res. \<exists>r \<in> set ?sorted. relevance r \<noteq> 0 \<and> l = lines eng ! pos r"
    by auto
  from False lr(1) res(1) have "Search eng query results_count = Inr res"
    by (simp add: Search_def)
  moreover have "\<exists>p r. p < ?n \<and> p \<notin> ?ign \<and> l = lines eng ! p \<and>
              line_relevance ?qw ?rel p 0 = Inr r \<and> 0 < r \<and> GetWordsFromStringView l \<noteq> []"
    if "l \<in> set res" for l
  proof -
    from res(3) that sorted obtain e where
      e: "e \<in> set lr" "relevance e \<noteq> 0" "l = lines eng ! pos e"
      by auto
    with lr(2) have p: "pos e < ?n" "pos e \<notin> ?ign"
      and score: "line_relevance ?qw ?rel (pos e) 0 = Inr (relevance e)" "0 \<le> relevance e"
      by auto
    from p B e(3) have "GetWordsFromStringView l \<noteq> []"
      by (simp add: index_words_snd)
    with e p score show ?thesis
      by (intro exI [of _ "pos e"] exI [of _ "relevance e"]) simp
  qed
  ultimately show ?thesis
    using res(2) by blast
qed

section \<open>Bounds of logarithms\<close>

lemma ln_lower: "0 < x \<Longrightarrow> 1 - 1 / x \<le> ln (x :: real)"
proof -
  assume x: "0 < x"
  then have "ln (1 / x) \<le> 1 / x - 1"
    by (intro ln_le_minus_one) simp
  with x show ?thesis
    by (simp add: ln_div)
qed

lemma ln_3_2: "1 / 3 \<le> ln (3 / 2 :: real)"
  using ln_lower [of "3 / 2"] by simp

lemma ln_2_half: "1 / 2 \<le> ln (2 :: real)"
  using ln_lower [of 2] by simp

section \<open>Search and the ignored lines\<close>

text \<open>
  Claim C7 (for every index, query and \<open>top_k\<close> the result of \<open>Search\<close> has at most
  \<open>top_k\<close> elements, so it is empty for \<open>top_k = 0\<close>; it contains only lines whose
  computed score is strictly positive, and never an ignored line). The text
  \<open>12-34!!\<newline>cat\<close> has the ignored line \<open>12-34!!\<close> in front of the line \<open>cat\<close>.
  Its index has the two lines and the ignore list \<open>{0}\<close>, but no relevance table:
  \<open>BuildIndex\<close> reads \<open>word_tf_in_line["cat"][1]\<close> in a vector of one element (line
  84, the read that fails on the text \<open>1\<newline>a\<close>), so neither the index nor the
  result of a query on it is determined by the source. \<open>Search\<close> itself reads the table at the line position as
  well (line 108): on the state with the two lines, the ignore list \<open>{0}\<close> and a table
  that holds, as the vector \<open>word_tf_in_line["cat"]\<close> does, one entry for the one
  scored line, the query \<open>cat\<close> reads the entry at the position \<open>1\<close>, behind the end.
\<close>

theorem Search_ignored_line_first:
  "index_words ''12-34!!\<newline>cat'' = ([[], [''cat'']], {0}) \<and>
   search_text ''12-34!!\<newline>cat'' ''cat'' 1 = Inl OutOfRange \<and>
   Search \<lparr>text_words = [''cat''], words_relevance_in_lines = [''cat'' \<mapsto> [ln 2]],
           lines = [''12-34!!'', ''cat''], ignore_list = {0}\<rparr> ''cat'' 1 = Inl OutOfRange"
proof -
  have "BuildIndex ''12-34!!\<newline>cat'' = Inl OutOfRange"
    by (simp add: BuildIndex_def tf_digits_then_cat lines_digits_then_cat
        vocabulary_digits_then_cat words_digits_then_cat)
  then have "search_text ''12-34!!\<newline>cat'' ''cat'' 1 = Inl OutOfRange"
    by (simp add: search_text_def)
  moreover have "Search \<lparr>text_words = [''cat''], words_relevance_in_lines = [''cat'' \<mapsto> [ln 2]],
           lines = [''12-34!!'', ''cat''], ignore_list = {0}\<rparr> ''cat'' 1 = Inl OutOfRange"
    by (simp add: Search_def ranking_query upt_rec)
  ultimately show ?thesis
    using words_digits_then_cat by blast
qed

text \<open>
  With the ignored line behind the scored one, the index is built and the ignored
  line is not returned.
\<close>

lemma Search_ignored_line_last:
  "\<exists>eng. BuildIndex ''a\<newline>1'' = Inr eng \<and> ignore_list eng = {1} \<and>
     Search eng ''a'' 2 = Inr [''a'']"
proof -
  have "\<exists>eng. BuildIndex ''a\<newline>1'' = Inr eng \<and> lines eng = [''a'', ''1''] \<and>
     ignore_list eng = {1} \<and> words_relevance_in_lines eng ''a'' = Some [ln 2]"
    by (simp add: BuildIndex_def index_tf_def lines_word_then_digit vocabulary_word_then_digit
        words_word_then_digit GetTFOfWordsInLine_def upt_rec)
  then obtain eng where eng: "BuildIndex ''a\<newline>1'' = Inr eng" "lines eng = [''a'', ''1'']"
    "ignore_list eng = {1}" "words_relevance_in_lines eng ''a'' = Some [ln 2]"
    by blast
  have "GetUniqueWordsFromStringView ''a'' = [''a'']"
    by code_simp
  then have "Search eng ''a'' 2 = Inr [''a'']"
    using ln_2_half
    by (simp add: Search_def eng(2,3,4) upt_rec std_sort_def less_relevance_def ERROR_def)
  with eng(1,3) show ?thesis
    by blast
qed

section \<open>The ranking of the example\<close>

text \<open>
  Claim C4 (after \<open>BuildIndex\<close> on the three lines \<open>cat sat\<close>, \<open>dog ran\<close>,
  \<open>cat cat cat\<close> the call \<open>Search("cat", 2)\<close> returns exactly \<open>cat cat cat\<close> followed
  by \<open>cat sat\<close>; the line \<open>dog ran\<close> has score zero and is excluded). The scores are
  \<open>ln (3/2) / 2\<close>, \<open>0\<close> and \<open>ln (3/2)\<close>. The second equation asks for three results and
  still gets two, so \<open>dog ran\<close> is left out because of its score.
\<close>

theorem ranking_example:
  "\<exists>eng. BuildIndex ranking_text = Inr eng \<and>
     Search eng ''cat'' 2 = Inr [''cat cat cat'', ''cat sat''] \<and>
     Search eng ''cat'' 3 = Inr [''cat cat cat'', ''cat sat'']"
proof -
  from ranking_index obtain eng where eng: "BuildIndex ranking_text = Inr eng"
    "lines eng = [''cat sat'', ''dog ran'', ''cat cat cat'']" "ignore_list eng = {}"
    "words_relevance_in_lines eng ''cat'' = Some [ln (3 / 2) / 2, 0, ln (3 / 2)]"
    by blast
  have "Search eng ''cat'' 2 = Inr [''cat cat cat'', ''cat sat'']"
    using ln_3_2
    by (simp add: Search_def eng(2,3,4) ranking_query upt_rec std_sort_def less_relevance_def ERROR_def)
  moreover have "Search eng ''cat'' 3 = Inr [''cat cat cat'', ''cat sat'']"
    using ln_3_2
    by (simp add: Search_def eng(2,3,4) ranking_query upt_rec std_sort_def less_relevance_def ERROR_def)
  ultimately show ?thesis
    using eng(1) by blast
qed

section \<open>A query in another case than the text\<close>

lemma fruit_lines: "GetLinesFromText fruit_text = [''apple pie'', ''banana bread'']"
  by code_simp

lemma fruit_vocabulary:
  "GetUniqueWordsFromStringView fruit_text = [''apple'', ''banana'', ''bread'', ''pie'']"
  by code_simp

lemma fruit_words:
  "index_words fruit_text = ([[''apple'', ''pie''], [''banana'', ''bread'']], {})"
  by code_simp

lemma fruit_find:
  "set_find ''apple'' [''apple'', ''banana'', ''bread'', ''pie''] = Some ''apple''"
  "set_find ''pie'' [''apple'', ''banana'', ''bread'', ''pie''] = Some ''pie''"
  "set_find ''banana'' [''apple'', ''banana'', ''bread'', ''pie''] = Some ''banana''"
  "set_find ''bread'' [''apple'', ''banana'', ''bread'', ''pie''] = Some ''bread''"
  by code_simp+

lemma fruit_queries:
  "GetUniqueWordsFromStringView ''apple'' = [''apple'']"
  "GetUniqueWordsFromStringView ''Apple'' = [''Apple'']"
  by code_simp+

lemma fruit_index:
  "\<exists>eng. BuildIndex fruit_text = Inr eng \<and>
     lines eng = [''apple pie'', ''banana bread''] \<and> ignore_list eng = {} \<and>
     words_relevance_in_lines eng ''apple'' = Some [ln 2 / 2, 0] \<and>
     words_relevance_in_lines eng ''Apple'' = None"
  by (simp add: BuildIndex_def index_tf_def fruit_vocabulary fruit_words fruit_lines
      GetTFOfWordsInLine_def fruit_find upt_rec del: set_find.simps)

text \<open>
  Claim C1 (a query and any case variant of it give the same result; in particular
  \<open>Search("Apple", k)\<close> and \<open>Search("apple", k)\<close> on the same index). The query words
  are deduplicated under \<open>Comp\<close>, but line 107 looks each of them up in
  \<open>words_relevance_in_lines_\<close>, an unordered map whose keys are the spellings of the
  text and whose equality is exact. On the text \<open>apple pie\<close>, \<open>banana bread\<close> the query
  \<open>apple\<close> finds the first line and the query \<open>Apple\<close> finds nothing, although the two
  words are equivalent under \<open>Comp\<close>.
\<close>

theorem Search_case_variant_differs:
  "\<exists>eng. BuildIndex fruit_text = Inr eng \<and>
     Search eng ''apple'' 1 = Inr [''apple pie''] \<and>
     Search eng ''Apple'' 1 = Inr [] \<and>
     \<not> Comp ''apple'' ''Apple'' \<and> \<not> Comp ''Apple'' ''apple''"
proof -
  from fruit_index obtain eng where eng: "BuildIndex fruit_text = Inr eng"
    "lines eng = [''apple pie'', ''banana bread'']" "ignore_list eng = {}"
    "words_relevance_in_lines eng ''apple'' = Some [ln 2 / 2, 0]"
    "words_relevance_in_lines eng ''Apple'' = None"
    by blast
  have "Search eng ''apple'' 1 = Inr [''apple pie'']"
    using ln_2_half
    by (simp add: Search_def eng(2,3,4) fruit_queries upt_rec std_sort_def less_relevance_def ERROR_def)
  moreover have "Search eng ''Apple'' 1 = Inr []"
    by (simp add: Search_def eng(2,3,5) fruit_queries upt_rec std_sort_def less_relevance_def ERROR_def)
  moreover have "\<not> Comp ''apple'' ''Apple''" and "\<not> Comp ''Apple'' ''apple''"
    by code_simp+
  ultimately show ?thesis
    using eng(1) by blast
qed

section \<open>The order of the result\<close>

lemma collect_results_eq:
  assumes "\<forall>r \<in> set rs. pos r < length ls"
  shows "collect_results rs i k ls acc =
           Inr (acc @ map (\<lambda>r. ls ! pos r) (takeWhile (\<lambda>r. relevance r \<noteq> 0) (take (k - i) rs)))"
  using assms
proof (induction rs arbitrary: i acc)
  case Nil
  show ?case by simp
next
  case (Cons r rs)
  show ?case
  proof (cases "i \<ge> k")
    case True
    then show ?thesis by simp
  next
    case False
    then have k: "k - i = Suc (k - Suc i)"
      by simp
    from Cons.prems have rest: "\<forall>r \<in> set rs. pos r < length ls" and p: "pos r < length ls"
      by simp_all
    show ?thesis
      using False p Cons.IH [OF rest, of "Suc i" "acc @ [ls ! pos r]"]
      by (simp add: k)
  qed
qed

lemma score_lines_pos:
  "score_lines is ign qw rel acc = Inr lr \<Longrightarrow>
   map pos lr = map pos acc @ filter (\<lambda>i. i \<notin> ign) is"
proof (induction "is" arbitrary: acc)
  case Nil
  then show ?case by simp
next
  case (Cons i rest)
  show ?case
  proof (cases "i \<in> ign")
    case True
    with Cons show ?thesis by simp
  next
    case False
    with Cons.prems obtain r where
      "score_lines rest ign qw rel (acc @ [\<lparr>relevance = r, pos = i\<rparr>]) = Inr lr"
      by (auto split: sum.splits)
    from Cons.IH [OF this] False show ?thesis by simp
  qed
qed

lemma unguarded_linear_insert_sorted:
  assumes trans: "\<And>a b c. a \<in> A \<Longrightarrow> b \<in> A \<Longrightarrow> c \<in> A \<Longrightarrow> lt a b \<Longrightarrow> lt b c \<Longrightarrow> lt a c"
    and total: "\<And>a b. a \<in> A \<Longrightarrow> b \<in> A \<Longrightarrow> a \<noteq> b \<Longrightarrow> lt a b \<or> lt b a"
  shows "x \<in> A \<Longrightarrow> set ys \<subseteq> A \<Longrightarrow> x \<notin> set ys \<Longrightarrow> sorted_wrt (\<lambda>a b. lt b a) ys \<Longrightarrow>
         sorted_wrt (\<lambda>a b. lt b a) (unguarded_linear_insert lt x ys)"
proof (induction ys)
  case Nil
  show ?case by simp
next
  case (Cons y ys)
  show ?case
  proof (cases "lt x y")
    case True
    from Cons.prems have "sorted_wrt (\<lambda>a b. lt b a) (unguarded_linear_insert lt x ys)"
      by (intro Cons.IH) auto
    with True Cons.prems(4) show ?thesis
      by (simp add: set_unguarded_linear_insert)
  next
    case False
    with total [of x y] Cons.prems(1,2,3) have yx: "lt y x"
      by auto
    have "lt z x" if "z \<in> set ys" for z
    proof -
      from Cons.prems(4) that have "lt z y" by simp
      with yx show ?thesis
        using trans [of z y x] Cons.prems(1,2) that by auto
    qed
    with False yx Cons.prems(4) show ?thesis by simp
  qed
qed

lemma insertion_sort_sorted:
  assumes trans: "\<And>a b c. a \<in> A \<Longrightarrow> b \<in> A \<Longrightarrow> c \<in> A \<Longrightarrow> lt a b \<Longrightarrow> lt b c \<Longrightarrow> lt a c"
    and total: "\<And>a b. a \<in> A \<Longrightarrow> b \<in> A \<Longrightarrow> a \<noteq> b \<Longrightarrow> lt a b \<or> lt b a"
  shows "sorted_wrt lt front \<Longrightarrow> distinct (front @ xs) \<Longrightarrow> set (front @ xs) \<subseteq> A \<Longrightarrow>
         sorted_wrt lt (insertion_sort lt front xs)"
proof (induction xs arbitrary: front)
  case Nil
  then show ?case by simp
next
  case (Cons val rest)
  let ?step = "case front of
          [] \<Rightarrow> [val]
        | first # others \<Rightarrow>
            if lt val first then val # front
            else rev (unguarded_linear_insert lt val (rev front))"
  have set_step: "set ?step = insert val (set front)"
    by (cases front) (auto simp: set_unguarded_linear_insert)
  have length_step: "distinct ?step"
  proof (cases front)
    case Nil
    then show ?thesis by simp
  next
    case (Cons first others)
    have "distinct (unguarded_linear_insert lt val ys)" if "distinct ys" "val \<notin> set ys" for ys
      using that by (induction ys) (auto simp: set_unguarded_linear_insert)
    from this [of "rev front"] Cons.prems(2) show ?thesis
      using Cons by auto
  qed
  have sorted_step: "sorted_wrt lt ?step"
  proof (cases front)
    case Nil
    then show ?thesis by simp
  next
    case front: (Cons first others)
    show ?thesis
    proof (cases "lt val first")
      case True
      have "lt val z" if "z \<in> set others" for z
      proof -
        from Cons.prems(1) front that have "lt first z" by simp
        with True show ?thesis
          using trans [of val first z] Cons.prems(3) front that by auto
      qed
      with True front Cons.prems(1) show ?thesis by simp
    next
      case False
      from Cons.prems have "sorted_wrt (\<lambda>a b. lt b a) (unguarded_linear_insert lt val (rev front))"
        by (intro unguarded_linear_insert_sorted [OF trans total, of A])
           (auto simp: sorted_wrt_rev)
      then have "sorted_wrt lt (rev (unguarded_linear_insert lt val (rev front)))"
        by (simp add: sorted_wrt_rev)
      with False front show ?thesis by simp
    qed
  qed
  have "sorted_wrt lt (insertion_sort lt ?step rest)"
  proof (rule Cons.IH [OF sorted_step])
    from length_step set_step Cons.prems(2) show "distinct (?step @ rest)"
      by auto
    from set_step Cons.prems(3) show "set (?step @ rest) \<subseteq> A"
      by auto
  qed
  then show ?case by simp
qed

lemma std_sort_sorted:
  assumes trans: "\<And>a b c. a \<in> A \<Longrightarrow> b \<in> A \<Longrightarrow> c \<in> A \<Longrightarrow> lt a b \<Longrightarrow> lt b c \<Longrightarrow> lt a c"
    and total: "\<And>a b. a \<in> A \<Longrightarrow> b \<in> A \<Longrightarrow> a \<noteq> b \<Longrightarrow> lt a b \<or> lt b a"
  shows "distinct xs \<Longrightarrow> set xs \<subseteq> A \<Longrightarrow> sorted_wrt lt (std_sort lt xs)"
  unfolding std_sort_def
  by (rule insertion_sort_sorted [OF trans total, of A]) simp_all

lemma less_relevance_total:
  assumes "pos a \<noteq> pos b"
  shows "less_relevance a b \<or> less_relevance b a"
proof -
  have "0 < ERROR"
    by (simp add: ERROR_def)
  with assms show ?thesis
    by (auto simp: less_relevance_def abs_minus_commute)
qed

lemma less_relevance_asym:
  assumes "less_relevance a b"
  shows "\<not> less_relevance b a"
proof (cases "\<bar>relevance a - relevance b\<bar> < ERROR")
  case True
  then have "\<bar>relevance b - relevance a\<bar> < ERROR"
    by (simp add: abs_minus_commute)
  with True assms show ?thesis
    by (simp add: less_relevance_def)
next
  case False
  then have "\<not> \<bar>relevance b - relevance a\<bar> < ERROR"
    by (simp add: abs_minus_commute)
  with False assms show ?thesis
    by (simp add: less_relevance_def)
qed

lemma tie_break_ordered_nth:
  "tie_break_ordered ys \<longleftrightarrow>
   (\<forall>i j. i < j \<longrightarrow> j < length ys \<longrightarrow> less_relevance (ys ! j) (ys ! i))"
proof -
  have "(\<lambda>a b. if \<bar>relevance a - relevance b\<bar> < ERROR then pos a < pos b
              else relevance b < relevance a) = (\<lambda>a b. less_relevance b a)"
    by (simp add: less_relevance_def fun_eq_iff abs_minus_commute)
  then show ?thesis
    by (simp add: tie_break_ordered_def sorted_wrt_iff_nth_less)
qed

text \<open>
  The comparison is transitive on the scored lines exactly when they can be arranged
  in the order of the claim at all. First: an ordered arrangement makes it transitive.
\<close>

lemma ordered_imp_transitive:
  assumes "tie_break_ordered ys" and "set rs \<subseteq> set ys"
  shows "comparison_transitive rs"
proof -
  from assms(1) have sorted:
    "\<And>i j. i < j \<Longrightarrow> j < length ys \<Longrightarrow> less_relevance (ys ! j) (ys ! i)"
    by (simp add: tie_break_ordered_nth)
  have before: "q < p"
    if "p < length ys" "q < length ys" "less_relevance (ys ! p) (ys ! q)" for p q
  proof (rule ccontr)
    assume "\<not> q < p"
    then consider "p < q" | "p = q"
      by fastforce
    then show False
    proof cases
      case 1
      from sorted [OF 1 that(2)] that(3) show False
        by (simp add: less_relevance_asym)
    next
      case 2
      with that(3) show False
        using less_relevance_asym [of "ys ! p" "ys ! p"] by simp
    qed
  qed
  have "less_relevance a c"
    if "a \<in> set rs" "b \<in> set rs" "c \<in> set rs" "less_relevance a b" "less_relevance b c"
    for a b c
  proof -
    from that(1,2,3) assms(2) obtain pa pb pc where
      p: "pa < length ys" "ys ! pa = a" "pb < length ys" "ys ! pb = b"
         "pc < length ys" "ys ! pc = c"
      by (metis in_set_conv_nth subsetD)
    from before [OF p(1) p(3)] that(4) p(2,4) have "pb < pa"
      by simp
    moreover from before [OF p(3) p(5)] that(5) p(4,6) have "pc < pb"
      by simp
    ultimately have "pc < pa"
      by simp
    from sorted [OF this p(1)] p(2,6) show ?thesis
      by simp
  qed
  then show ?thesis
    unfolding comparison_transitive_def list_all_iff by blast
qed

text \<open>Second: when it is transitive, sorting arranges the scored lines in that order.\<close>

lemma transitive_imp_ordered:
  assumes "distinct (map pos lr)" and "comparison_transitive lr"
  shows "tie_break_ordered (rev (std_sort less_relevance (rev lr)))"
proof -
  from assms(1) have d: "distinct (rev lr)"
    by (simp add: distinct_map)
  from assms(1) have inj: "pos a \<noteq> pos b" if "a \<in> set lr" "b \<in> set lr" "a \<noteq> b" for a b
    using that by (auto simp: distinct_map inj_on_def)
  have "sorted_wrt less_relevance (std_sort less_relevance (rev lr))"
  proof (rule std_sort_sorted [where A = "set lr"])
    show "less_relevance a c"
      if "a \<in> set lr" "b \<in> set lr" "c \<in> set lr" "less_relevance a b" "less_relevance b c"
      for a b c
      using assms(2) that unfolding comparison_transitive_def list_all_iff by blast
    show "less_relevance a b \<or> less_relevance b a" if "a \<in> set lr" "b \<in> set lr" "a \<noteq> b"
      for a b
      using inj [OF that] by (rule less_relevance_total)
  qed (use d in simp_all)
  then have "sorted_wrt (\<lambda>a b. less_relevance b a) (rev (std_sort less_relevance (rev lr)))"
    by (simp add: sorted_wrt_rev)
  moreover have "(\<lambda>a b. less_relevance b a) =
      (\<lambda>a b. if \<bar>relevance a - relevance b\<bar> < ERROR then pos a < pos b
              else relevance b < relevance a)"
    by (simp add: less_relevance_def fun_eq_iff abs_minus_commute)
  ultimately show ?thesis
    by (simp add: tie_break_ordered_def)
qed

lemma transitive_iff_arrangement:
  assumes "distinct (map pos lr)"
  shows "comparison_transitive lr \<longleftrightarrow> (\<exists>ys. set lr \<subseteq> set ys \<and> tie_break_ordered ys)"
proof
  assume "comparison_transitive lr"
  with assms have "tie_break_ordered (rev (std_sort less_relevance (rev lr)))"
    by (rule transitive_imp_ordered)
  moreover have "set lr \<subseteq> set (rev (std_sort less_relevance (rev lr)))"
    by (simp add: set_std_sort)
  ultimately show "\<exists>ys. set lr \<subseteq> set ys \<and> tie_break_ordered ys"
    by blast
next
  assume "\<exists>ys. set lr \<subseteq> set ys \<and> tie_break_ordered ys"
  then show "comparison_transitive lr"
    using ordered_imp_transitive by blast
qed

text \<open>
  Claim C6, as amended (in every \<open>Search\<close> result for which the comparison of lines
  116 to 122 is transitive on the scored lines, two returned lines whose scores
  differ by less than \<open>1e-9\<close> come in ascending line position, and two whose scores
  differ by at least \<open>1e-9\<close> in strictly descending score). The engine is in any
  state; \<open>lr\<close> names its scored lines for the query. The result of \<open>Search\<close> is the
  ranking with every entry replaced by its line.
\<close>

theorem Search_tie_break_order:
  assumes "Search_scores eng query = Inr lr" and "comparison_transitive lr"
  shows "\<exists>ranking. Search_ranking eng query results_count = Inr ranking \<and>
           Search eng query results_count = Inr (map (\<lambda>r. lines eng ! pos r) ranking) \<and>
           tie_break_ordered ranking"
proof (cases "results_count = 0 \<or> lines eng = []")
  case True
  then show ?thesis
    by (simp add: Search_ranking_def Search_def tie_break_ordered_def)
next
  case False
  let ?sorted = "rev (std_sort less_relevance (rev lr))"
  let ?ranking = "takeWhile (\<lambda>r. relevance r \<noteq> 0) (take results_count ?sorted)"
  have positions:
    "map pos lr = filter (\<lambda>i. i \<notin> ignore_list eng) [0..<length (lines eng)]"
    using score_lines_pos [OF assms(1) [unfolded Search_scores_def]] by simp
  then have "distinct (map pos lr)"
    by simp
  then have "tie_break_ordered ?sorted"
    using assms(2) by (rule transitive_imp_ordered)
  then have "tie_break_ordered (take results_count ?sorted)"
    unfolding tie_break_ordered_def by (rule sorted_wrt_take)
  then have "tie_break_ordered (take (length ?ranking) (take results_count ?sorted))"
    unfolding tie_break_ordered_def by (rule sorted_wrt_take)
  then have ordered: "tie_break_ordered ?ranking"
    by (simp only: takeWhile_eq_take [symmetric])
  have "\<forall>r \<in> set ?sorted. pos r < length (lines eng)"
  proof
    fix r
    assume "r \<in> set ?sorted"
    then have "pos r \<in> set (map pos lr)"
      by (simp add: set_std_sort)
    then show "pos r < length (lines eng)"
      unfolding positions by simp
  qed
  from collect_results_eq [OF this, of 0 results_count "[]"]
  have "Search eng query results_count = Inr (map (\<lambda>r. lines eng ! pos r) ?ranking)"
    using False assms(1) by (simp add: Search_def Search_scores_def)
  moreover have "Search_ranking eng query results_count = Inr ?ranking"
    using False assms(1) by (simp add: Search_ranking_def Search_scores_def)
  ultimately show ?thesis
    using ordered by blast
qed

section \<open>A chain of near-ties\<close>

lemma GetLines_body_split:
  assumes "l \<noteq> []" and "nl \<notin> set l" and "rest \<noteq> []"
  shows "GetLines_body (l @ nl # rest) = l # GetLines_body rest"
proof -
  from assms(1,2) have "hd (l @ nl # rest) \<noteq> nl"
    by (cases l) auto
  then have 1: "\<not> (l @ nl # rest \<noteq> [] \<and> hd (l @ nl # rest) = nl)"
    by simp
  have 2: "nl \<in> set (l @ nl # rest)"
    by simp
  have "takeWhile (\<lambda>c. c \<noteq> nl) (l @ nl # rest) = l @ takeWhile (\<lambda>c. c \<noteq> nl) (nl # rest)"
    by (rule takeWhile_append2) (use assms(2) in auto)
  then have "takeWhile (\<lambda>c. c \<noteq> nl) (l @ nl # rest) = l"
    by simp
  moreover have "dropWhile (\<lambda>c. c \<noteq> nl) (l @ nl # rest) = dropWhile (\<lambda>c. c \<noteq> nl) (nl # rest)"
    by (rule dropWhile_append2) (use assms(2) in auto)
  then have "dropWhile (\<lambda>c. c \<noteq> nl) (l @ nl # rest) = nl # rest"
    by simp
  ultimately show ?thesis
    using GetLines_body_line [OF 1 2] assms(3) by simp
qed

lemma chain_line_chars: "set (chain_line n) \<subseteq> {CHR ''w'', CHR '' '', CHR ''x''}"
  unfolding chain_line_def by (induction n) auto

lemma chain_line_no_newline: "nl \<notin> set (chain_line n)"
  using chain_line_chars [of n] by (auto simp: nl_def)

lemma chain_line_nonempty: "chain_line n \<noteq> []"
  by (simp add: chain_line_def)

lemma chain_lines:
  "GetLinesFromText chain_text =
     [chain_line 20001, chain_line 20000, chain_line 19999, ''1'']"
proof -
  have last: "GetLines_body ''1'' = [''1'']"
    by (rule GetLines_body_last) (simp add: nl_def)
  show ?thesis
    unfolding GetLinesFromText_def chain_text_def
    by (simp add: GetLines_body_split chain_line_no_newline chain_line_nonempty last)
qed

lemma not_isalpha_space: "\<not> isalpha CHR '' ''"
  by (simp add: isalpha_def)

lemma GetWords_x: "GetWordsFromStringView ''x'' = [''x'']"
  by code_simp

lemma GetWords_w: "GetWordsFromStringView ''w'' = [''w'']"
  by code_simp

lemma GetWords_1: "GetWordsFromStringView ''1'' = []"
  by code_simp

lemma GetWords_x_xs:
  "GetWordsFromStringView (CHR ''x'' # concat (replicate n '' x'')) = replicate (Suc n) ''x''"
proof (induction n)
  case 0
  show ?case by (simp add: GetWords_x)
next
  case (Suc n)
  have shape: "CHR ''x'' # concat (replicate (Suc n) '' x'') =
        ''x'' @ CHR '' '' # (CHR ''x'' # concat (replicate n '' x''))"
    by simp
  have "GetWordsFromStringView (''x'' @ CHR '' '' # (CHR ''x'' # concat (replicate n '' x''))) =
        GetWordsFromStringView ''x'' @
        GetWordsFromStringView (CHR ''x'' # concat (replicate n '' x''))"
    by (rule GetWords_append_separator [OF not_isalpha_space])
  then have "GetWordsFromStringView (CHR ''x'' # concat (replicate (Suc n) '' x'')) =
        [''x''] @ replicate (Suc n) ''x''"
    by (simp only: shape GetWords_x Suc.IH)
  then show ?case by simp
qed

lemma chain_line_words:
  "GetWordsFromStringView (chain_line n) = ''w'' # replicate n ''x''"
proof (cases n)
  case 0
  then show ?thesis by (simp add: chain_line_def GetWords_w)
next
  case (Suc m)
  have shape: "chain_line (Suc m) = ''w'' @ CHR '' '' # (CHR ''x'' # concat (replicate m '' x''))"
    by (simp add: chain_line_def)
  have "GetWordsFromStringView (''w'' @ CHR '' '' # (CHR ''x'' # concat (replicate m '' x''))) =
        GetWordsFromStringView ''w'' @
        GetWordsFromStringView (CHR ''x'' # concat (replicate m '' x''))"
    by (rule GetWords_append_separator [OF not_isalpha_space])
  then have "GetWordsFromStringView (chain_line (Suc m)) = [''w''] @ replicate (Suc m) ''x''"
    by (simp only: shape GetWords_w GetWords_x_xs)
  with Suc show ?thesis by simp
qed

lemma chain_set_insert:
  "set_insert ''w'' [] = [''w'']"
  "set_insert ''x'' [''w''] = [''w'', ''x'']"
  "set_insert ''w'' [''w'', ''x''] = [''w'', ''x'']"
  "set_insert ''x'' [''w'', ''x''] = [''w'', ''x'']"
  by code_simp+

lemma chain_set_find:
  "set_find ''w'' [''w'', ''x''] = Some ''w''"
  "set_find ''x'' [''w'', ''x''] = Some ''x''"
  by code_simp+

lemma fold_set_insert_known:
  "set ws \<subseteq> {''w'', ''x''} \<Longrightarrow> fold set_insert ws [''w'', ''x''] = [''w'', ''x'']"
proof (induction ws)
  case Nil
  show ?case by simp
next
  case (Cons t ws)
  then have "t = ''w'' \<or> t = ''x''" and "set ws \<subseteq> {''w'', ''x''}"
    by auto
  with Cons.IH show ?case
    by (auto simp: chain_set_insert simp del: set_insert.simps)
qed

lemma chain_vocabulary:
  "GetUniqueWordsFromStringView chain_text = [''w'', ''x'']"
proof -
  define rest where "rest = replicate 20000 ''x'' @ (''w'' # replicate 20000 ''x'') @
                       (''w'' # replicate 19999 ''x'')"
  have words: "GetWordsFromStringView chain_text =
      concat (map GetWordsFromStringView (GetLinesFromText chain_text))"
    unfolding GetLinesFromText_def by (simp only: GetWords_of_lines)
  have first: "replicate 20001 ''x'' = ''x'' # replicate 20000 ''x''"
    using replicate_Suc [of 20000 "''x''"] by simp
  have "GetWordsFromStringView chain_text = ''w'' # ''x'' # rest"
    unfolding words chain_lines rest_def
    by (simp add: chain_line_words GetWords_1 first)
  then have "GetUniqueWordsFromStringView chain_text = fold set_insert rest [''w'', ''x'']"
    by (simp add: GetUniqueWords_fold chain_set_insert del: set_insert.simps)
  moreover have "set rest \<subseteq> {''w'', ''x''}"
    unfolding rest_def by auto
  ultimately show ?thesis
    by (simp only: fold_set_insert_known)
qed

lemma chain_scored_words:
  "scored_words chain_text =
     [''w'' # replicate 20001 ''x'', ''w'' # replicate 20000 ''x'', ''w'' # replicate 19999 ''x'']"
  by (simp add: scored_words_def chain_lines chain_line_words GetWords_1)

lemma chain_ignore: "snd (index_words chain_text) = {3}"
proof (rule set_eqI)
  fix k :: nat
  let ?ls = "[chain_line 20001, chain_line 20000, chain_line 19999, ''1'']"
  have nth: "?ls ! 0 = chain_line 20001" "?ls ! 1 = chain_line 20000"
    "?ls ! 2 = chain_line 19999" "?ls ! 3 = ''1''"
    by simp_all
  have small: "k < 4 \<longleftrightarrow> k = 0 \<or> k = 1 \<or> k = 2 \<or> k = 3"
    by auto
  have "k < length ?ls \<and> GetWordsFromStringView (?ls ! k) = [] \<longleftrightarrow> k = 3"
  proof
    assume h: "k < length ?ls \<and> GetWordsFromStringView (?ls ! k) = []"
    then have "k = 0 \<or> k = 1 \<or> k = 2 \<or> k = 3"
      using small by simp
    then show "k = 3"
    proof (elim disjE)
      assume "k = 0"
      with h nth(1) show ?thesis by (simp only: chain_line_words) simp
    next
      assume "k = 1"
      with h nth(2) show ?thesis by (simp only: chain_line_words) simp
    next
      assume "k = 2"
      with h nth(3) show ?thesis by (simp only: chain_line_words) simp
    qed
  next
    assume "k = 3"
    with nth(4) show "k < length ?ls \<and> GetWordsFromStringView (?ls ! k) = []"
      by (simp only: GetWords_1) simp
  qed
  then show "k \<in> snd (index_words chain_text) \<longleftrightarrow> k \<in> {3}"
    unfolding index_words_snd chain_lines by simp
qed

lemma count_keywords_xs:
  "count_keywords (replicate n ''x'') [''w'', ''x''] cnt = cnt(''x'' := cnt ''x'' + real n)"
proof (induction n arbitrary: cnt)
  case 0
  show ?case by simp
next
  case (Suc n)
  have "count_keywords (replicate (Suc n) ''x'') [''w'', ''x''] cnt =
        count_keywords (replicate n ''x'') [''w'', ''x''] (cnt(''x'' := cnt ''x'' + 1))"
    by (simp add: chain_set_find del: set_find.simps)
  also have "\<dots> = (cnt(''x'' := cnt ''x'' + 1))(''x'' := (cnt(''x'' := cnt ''x'' + 1)) ''x'' + real n)"
    by (rule Suc.IH)
  also have "\<dots> = cnt(''x'' := cnt ''x'' + real (Suc n))"
    by (simp add: algebra_simps)
  finally show ?case .
qed

lemma chain_tf:
  "tf_of (''w'' # replicate n ''x'') [''w'', ''x''] ''w'' = 1 / real (Suc n)"
  "tf_of (''w'' # replicate n ''x'') [''w'', ''x''] ''x'' = real n / real (Suc n)"
proof -
  have d: "distinct [''w'', ''x'']"
    by simp
  have count: "count_keywords (''w'' # replicate n ''x'') [''w'', ''x''] (\<lambda>w. 0) =
        ((\<lambda>w. 0)(''w'' := 1))(''x'' := real n)"
    by (simp add: chain_set_find count_keywords_xs del: set_find.simps)
  show "tf_of (''w'' # replicate n ''x'') [''w'', ''x''] ''w'' = 1 / real (Suc n)"
    unfolding tf_of_def divide_keywords_eq [OF d] count by simp
  show "tf_of (''w'' # replicate n ''x'') [''w'', ''x''] ''x'' = real n / real (Suc n)"
    unfolding tf_of_def divide_keywords_eq [OF d] count by simp
qed

lemma chain_index:
  "\<exists>eng. BuildIndex chain_text = Inr eng \<and>
     lines eng = [chain_line 20001, chain_line 20000, chain_line 19999, ''1''] \<and>
     ignore_list eng = {3} \<and>
     words_relevance_in_lines eng ''w'' =
       Some [ln (4 / 3) / 20002, ln (4 / 3) / 20001, ln (4 / 3) / 20000]"
proof -
  have d: "distinct [''w'', ''x'']"
    by simp
  show ?thesis
    unfolding BuildIndex_def index_tf_eq chain_vocabulary chain_scored_words chain_ignore
      chain_lines
    by (simp add: idf_loop_eq [OF d] chain_tf upt_rec)
qed

lemma ln_4_3: "1 / 4 \<le> ln (4 / 3 :: real)" "ln (4 / 3 :: real) \<le> 1 / 3"
proof -
  show "1 / 4 \<le> ln (4 / 3 :: real)"
    using ln_lower [of "4 / 3"] by simp
  show "ln (4 / 3 :: real) \<le> 1 / 3"
    using ln_le_minus_one [of "4 / 3 :: real"] by simp
qed

lemma chain_query: "GetUniqueWordsFromStringView ''w'' = [''w'']"
  by code_simp

lemma chain_not_ordered: "\<not> tie_break_ordered chain_ranking"
  using ln_4_3 by (simp add: tie_break_ordered_def chain_ranking_def ERROR_def)

text \<open>
  On the scored lines of the chain the comparison is not transitive: the third line
  is smaller than the second and the second smaller than the first, both by
  position, but the third is greater than the first by score. So the order of the
  claim fails for every list that holds the three entries, whatever arrangement a
  sorting algorithm returns.
\<close>

lemma chain_not_transitive: "\<not> comparison_transitive chain_scores"
proof
  let ?e0 = "\<lparr>relevance = ln (4 / 3) / 20002, pos = 0\<rparr>"
  let ?e1 = "\<lparr>relevance = ln (4 / 3) / 20001, pos = 1\<rparr>"
  let ?e2 = "\<lparr>relevance = ln (4 / 3) / 20000, pos = 2\<rparr>"
  assume "comparison_transitive chain_scores"
  then have trans: "less_relevance a c"
    if "a \<in> set chain_scores" "b \<in> set chain_scores" "c \<in> set chain_scores"
      "less_relevance a b" "less_relevance b c" for a b c
    using that unfolding comparison_transitive_def list_all_iff by blast
  have mem: "?e2 \<in> set chain_scores" "?e1 \<in> set chain_scores" "?e0 \<in> set chain_scores"
    by (simp_all add: chain_scores_def)
  have "less_relevance ?e2 ?e1"
    using ln_4_3 by (simp add: less_relevance_def ERROR_def)
  moreover have "less_relevance ?e1 ?e0"
    using ln_4_3 by (simp add: less_relevance_def ERROR_def)
  ultimately have "less_relevance ?e2 ?e0"
    by (rule trans [OF mem])
  then show False
    using ln_4_3 by (simp add: less_relevance_def ERROR_def)
qed

lemma chain_no_order: "\<not> (\<exists>ys. set chain_scores \<subseteq> set ys \<and> tie_break_ordered ys)"
  using chain_not_transitive ordered_imp_transitive by blast

text \<open>
  Claim C6, as the specification states it, at the chain of near-ties. The query \<open>w\<close>
  scores the three lines \<open>ln (4/3) / 20002\<close>, \<open>ln (4/3) / 20001\<close> and
  \<open>ln (4/3) / 20000\<close>. The sort leaves the second and the third line where they are,
  a near-tie in ascending position, and moves the first line behind them, because its
  score is more than \<open>1e-9\<close> below the score of the third: the ranking is the lines at
  the positions 1, 2, 0, and \<open>Search\<close> returns them in this order. The second and the
  first line are a near-tie and come in descending position. No other arrangement of
  the three scored lines has the order of the claim either.
\<close>

theorem chain_ranking_not_ordered:
  "scores_of chain_text ''w'' = Inr chain_scores \<and>
   ranking_of chain_text ''w'' 3 = Inr chain_ranking \<and>
   search_text chain_text ''w'' 3 = Inr [chain_line 20000, chain_line 19999, chain_line 20001] \<and>
   \<not> tie_break_ordered chain_ranking \<and>
   \<not> (\<exists>ys. set chain_scores \<subseteq> set ys \<and> tie_break_ordered ys)"
proof -
  from chain_index obtain eng where eng: "BuildIndex chain_text = Inr eng"
    "lines eng = [chain_line 20001, chain_line 20000, chain_line 19999, ''1'']"
    "ignore_list eng = {3}"
    "words_relevance_in_lines eng ''w'' =
       Some [ln (4 / 3) / 20002, ln (4 / 3) / 20001, ln (4 / 3) / 20000]"
    by blast
  have "Search_scores eng ''w'' = Inr chain_scores"
    by (simp add: Search_scores_def eng(2,3,4) chain_query upt_rec chain_scores_def)
  with eng(1) have scores: "scores_of chain_text ''w'' = Inr chain_scores"
    by (simp add: scores_of_def)
  have "Search_ranking eng ''w'' 3 = Inr chain_ranking"
    using ln_4_3
    by (simp add: Search_ranking_def Search_scores_def eng(2,3,4) chain_query upt_rec
        std_sort_def less_relevance_def ERROR_def chain_ranking_def)
  with eng(1) have ranking: "ranking_of chain_text ''w'' 3 = Inr chain_ranking"
    by (simp add: ranking_of_def)
  have "Search eng ''w'' 3 = Inr [chain_line 20000, chain_line 19999, chain_line 20001]"
    using ln_4_3
    by (simp add: Search_def eng(2,3,4) chain_query upt_rec std_sort_def less_relevance_def
        ERROR_def)
  with eng(1) have
    "search_text chain_text ''w'' 3 = Inr [chain_line 20000, chain_line 19999, chain_line 20001]"
    by (simp add: search_text_def)
  with scores ranking chain_not_ordered chain_no_order show ?thesis
    by blast
qed

text \<open>
  A chain of near-ties whose scores fall with the position: the first and the last
  entry are no near-tie, the comparison is transitive all the same, and the order of
  the claim holds.
\<close>

lemma descending_chain_transitive:
  "comparison_transitive
     [\<lparr>relevance = ln (4 / 3) / 20000, pos = 0\<rparr>, \<lparr>relevance = ln (4 / 3) / 20001, pos = 1\<rparr>,
      \<lparr>relevance = ln (4 / 3) / 20002, pos = 2\<rparr>]"
proof -
  let ?e0 = "\<lparr>relevance = ln (4 / 3) / 20000, pos = 0\<rparr>"
  let ?e1 = "\<lparr>relevance = ln (4 / 3) / 20001, pos = 1\<rparr>"
  let ?e2 = "\<lparr>relevance = ln (4 / 3) / 20002, pos = 2\<rparr>"
  have "\<not> less_relevance ?e0 ?e0" "\<not> less_relevance ?e0 ?e1" "\<not> less_relevance ?e0 ?e2"
    "less_relevance ?e1 ?e0" "\<not> less_relevance ?e1 ?e1" "\<not> less_relevance ?e1 ?e2"
    "less_relevance ?e2 ?e0" "less_relevance ?e2 ?e1" "\<not> less_relevance ?e2 ?e2"
    using ln_4_3 by (simp_all add: less_relevance_def ERROR_def)
  then show ?thesis
    by (simp add: comparison_transitive_def)
qed

section \<open>Two lines with the same score\<close>

lemma tie_lines: "GetLinesFromText tie_text = [''cat a'', ''cat b'', ''dog'']"
  by code_simp

lemma tie_vocabulary:
  "GetUniqueWordsFromStringView tie_text = [''a'', ''b'', ''cat'', ''dog'']"
  by code_simp

lemma tie_words:
  "index_words tie_text = ([[''cat'', ''a''], [''cat'', ''b''], [''dog'']], {})"
  by code_simp

lemma tie_find:
  "set_find ''a'' [''a'', ''b'', ''cat'', ''dog''] = Some ''a''"
  "set_find ''b'' [''a'', ''b'', ''cat'', ''dog''] = Some ''b''"
  "set_find ''cat'' [''a'', ''b'', ''cat'', ''dog''] = Some ''cat''"
  "set_find ''dog'' [''a'', ''b'', ''cat'', ''dog''] = Some ''dog''"
  by code_simp+

lemma tie_index:
  "\<exists>eng. BuildIndex tie_text = Inr eng \<and>
     lines eng = [''cat a'', ''cat b'', ''dog''] \<and> ignore_list eng = {} \<and>
     words_relevance_in_lines eng ''cat'' = Some [ln (3 / 2) / 2, ln (3 / 2) / 2, 0]"
  by (simp add: BuildIndex_def index_tf_def tie_vocabulary tie_words tie_lines
      GetTFOfWordsInLine_def tie_find upt_rec del: set_find.simps)

theorem Search_tie_break_order_witness:
  "\<exists>eng. BuildIndex tie_text = Inr eng \<and>
     Search_scores eng ''cat'' =
       Inr [\<lparr>relevance = ln (3 / 2) / 2, pos = 0\<rparr>, \<lparr>relevance = ln (3 / 2) / 2, pos = 1\<rparr>,
            \<lparr>relevance = 0, pos = 2\<rparr>] \<and>
     comparison_transitive [\<lparr>relevance = ln (3 / 2) / 2, pos = 0\<rparr>,
                            \<lparr>relevance = ln (3 / 2) / 2, pos = 1\<rparr>,
                            \<lparr>relevance = 0, pos = 2\<rparr>] \<and>
     Search eng ''cat'' 2 = Inr [''cat a'', ''cat b'']"
proof -
  let ?lr = "[\<lparr>relevance = ln (3 / 2) / 2, pos = 0\<rparr>, \<lparr>relevance = ln (3 / 2) / 2, pos = 1\<rparr>,
              \<lparr>relevance = 0, pos = 2\<rparr>]"
  from tie_index obtain eng where eng: "BuildIndex tie_text = Inr eng"
    "lines eng = [''cat a'', ''cat b'', ''dog'']" "ignore_list eng = {}"
    "words_relevance_in_lines eng ''cat'' = Some [ln (3 / 2) / 2, ln (3 / 2) / 2, 0]"
    by blast
  have scores: "Search_scores eng ''cat'' = Inr ?lr"
    by (simp add: Search_scores_def eng(2,3,4) ranking_query upt_rec)
  let ?t0 = "\<lparr>relevance = ln (3 / 2) / 2, pos = 0\<rparr>"
  let ?t1 = "\<lparr>relevance = ln (3 / 2) / 2, pos = 1\<rparr>"
  let ?t2 = "\<lparr>relevance = 0, pos = 2\<rparr>"
  have "\<not> less_relevance ?t0 ?t0" "\<not> less_relevance ?t0 ?t1" "\<not> less_relevance ?t0 ?t2"
    "less_relevance ?t1 ?t0" "\<not> less_relevance ?t1 ?t1" "\<not> less_relevance ?t1 ?t2"
    "less_relevance ?t2 ?t0" "less_relevance ?t2 ?t1" "\<not> less_relevance ?t2 ?t2"
    using ln_3_2 by (simp_all add: less_relevance_def ERROR_def)
  then have trans: "comparison_transitive ?lr"
    by (simp add: comparison_transitive_def)
  from Search_tie_break_order [OF scores trans, of 2] obtain ranking where
    ranking: "Search_ranking eng ''cat'' 2 = Inr ranking"
      "Search eng ''cat'' 2 = Inr (map (\<lambda>r. lines eng ! pos r) ranking)"
      "tie_break_ordered ranking"
    by blast
  have "Search_ranking eng ''cat'' 2 =
      Inr [\<lparr>relevance = ln (3 / 2) / 2, pos = 0\<rparr>, \<lparr>relevance = ln (3 / 2) / 2, pos = 1\<rparr>]"
    using ln_3_2
    by (simp add: Search_ranking_def Search_scores_def eng(2,3,4) ranking_query upt_rec
        std_sort_def less_relevance_def ERROR_def)
  with ranking(1) have "ranking =
      [\<lparr>relevance = ln (3 / 2) / 2, pos = 0\<rparr>, \<lparr>relevance = ln (3 / 2) / 2, pos = 1\<rparr>]"
    by simp
  then have "map (\<lambda>r. lines eng ! pos r) ranking = [''cat a'', ''cat b'']"
    by (simp add: eng(2))
  with ranking(2) have "Search eng ''cat'' 2 = Inr [''cat a'', ''cat b'']"
    by (simp only:)
  with eng(1) scores trans show ?thesis
    by blast
qed

end
